theory Spec2Isabelle
  imports Main "HOL-Library.Word"
begin

unbundle bit_operations_syntax

section \<open>Data model\<close>

type_synonym byte = "8 word"
type_synonym bytes = "byte list"

text \<open>
  Modelled from the spec: the type tags of the primitive codec are declared in a file that
  is not part of the sources. \<open>mapping.go\<close> names only \<open>UTF8Type\<close>; the other
  tags stand for the remaining scalar types.
\<close>

datatype TypeDesc = UTF8Type | BytesType | LongType | BooleanType

text \<open>
  Go values that can sit in a field of a tagged struct. A Go \<open>string\<close> is a sequence of
  bytes, as a HOL \<open>string\<close> is.
\<close>

datatype gval = VString string | VBytes bytes | VLong "64 word" | VBool bool

text \<open>
  Go errors. \<open>mapping.go\<close> builds most of them with \<open>errors.New (fmt.Sprint ...)\<close>;
  each such error is a constructor that carries the values the message is built from.
  \<open>Done\<close>, \<open>EndBeforeLimit\<close> and \<open>EndAtLimit\<close> are the sentinel values compared
  by identity. \<open>IndexOutOfRange\<close> is the run-time panic of a slice read out of range.
  \<open>MalformedComposite\<close> marks a column name that is not a sequence of packed
  components (see \<open>unpackComposite\<close>).
\<close>

datatype error =
    Done
  | EndBeforeLimit
  | EndAtLimit
  | InspectError string
  | CodecError string
  | ProviderError string
  | FieldMarshalError string error
  | FieldUnmarshalError string error
  | MandatoryTagNotFound string string
  | KeyFieldNotFound string string
  | CompositeFieldNotFound string string
  | ValueFieldNotFound string string
  | UnrecognizedMappingType string string
  | MappingKeyFieldNotFound string string
  | MappingComponentFieldNotFound string string
  | ComponentCountMismatch string
  | FieldNameUnmarshalError string error
  | ColumnUnmarshalError string error
  | CompactValueUnmarshalError error
  | MalformedComposite
  | IndexOutOfRange

record Column =
  Name :: bytes
  Value :: bytes
  Ttl :: "32 word"
  Timestamp :: "64 word"

record Row =
  Key :: bytes
  Columns :: "Column list"

text \<open>
  Modelled from the spec: the field registry (\<open>struct.go\<close>) is not part of the sources.
  \<open>mapping.go\<close> reads a field's Go name (\<open>name\<close>), compares it with the \<open>key\<close>
  and \<open>cols\<close> tags, looks fields up by Go name in \<open>goFields\<close> and by store-facing
  name in \<open>cassandraFields\<close>, and walks \<open>orderedFields\<close> in declaration order.
\<close>

record field =
  name :: string
  cassandraType :: TypeDesc
  cassandraName :: string

record structInspection =
  rtype :: string
  globalTags :: "string \<rightharpoonup> string"
  orderedFields :: "field list"
  goFields :: "string \<rightharpoonup> field"
  cassandraFields :: "string \<rightharpoonup> field"

text \<open>The value of a struct: the content of each field, by Go field name.\<close>

type_synonym structValue = "string \<Rightarrow> gval"

text \<open>
  What a caller passes as \<open>interface{}\<close>: a pointer to a tagged struct, which has a
  registry and a value, or anything else.
\<close>

datatype source = StructPtr structInspection structValue | NotStructPtr

text \<open>
  Modelled from the spec: \<open>validateAndInspectStruct\<close> is not part of the sources. It
  yields the struct value and its registry, or an error that its callers propagate.
\<close>

fun validateAndInspectStruct :: "source \<Rightarrow> error + structValue \<times> structInspection" where
  "validateAndInspectStruct (StructPtr insp v) = Inr (v, insp)"
| "validateAndInspectStruct NotStructPtr = Inl (InspectError ''not a pointer to a struct'')"

text \<open>
  The primitive type codec (\<open>Marshal\<close>, \<open>Unmarshal\<close>) is an external collaborator and a
  parameter of the model. \<open>Unmarshal b t x\<close> decodes \<open>b\<close> into the variable that
  currently holds \<open>x\<close> and yields its new content.
\<close>

record codec =
  Marshal :: "gval \<Rightarrow> TypeDesc \<Rightarrow> error + bytes"
  Unmarshal :: "bytes \<Rightarrow> TypeDesc \<Rightarrow> gval \<Rightarrow> error + gval"

text \<open>
  Modelled from the spec: the per-field marshal and unmarshal entry points of the field
  registry. A codec failure is wrapped with the field name; a failed unmarshal leaves the
  struct as it was.
\<close>

definition marshalName :: "codec \<Rightarrow> field \<Rightarrow> error + bytes" where
  "marshalName C f =
     (case Marshal C (VString (cassandraName f)) UTF8Type of
        Inl e \<Rightarrow> Inl (FieldMarshalError (name f) e)
      | Inr b \<Rightarrow> Inr b)"

definition marshalValue :: "codec \<Rightarrow> field \<Rightarrow> structValue \<Rightarrow> error + bytes" where
  "marshalValue C f v =
     (case Marshal C (v (name f)) (cassandraType f) of
        Inl e \<Rightarrow> Inl (FieldMarshalError (name f) e)
      | Inr b \<Rightarrow> Inr b)"

definition unmarshalValue ::
  "codec \<Rightarrow> field \<Rightarrow> bytes \<Rightarrow> structValue \<Rightarrow> error option \<times> structValue" where
  "unmarshalValue C f b v =
     (case Unmarshal C b (cassandraType f) (v (name f)) of
        Inl e \<Rightarrow> (Some (FieldUnmarshalError (name f) e), v)
      | Inr x \<Rightarrow> (None, v(name f := x)))"

text \<open>
  The \<open>RowProvider\<close> interface: three methods over the provider's own state \<open>'s\<close>.
  \<open>provKey\<close> is the method \<open>Key\<close>.
\<close>

record 's RowProvider =
  provKey :: "'s \<Rightarrow> (error + bytes) \<times> 's"
  NextColumn :: "'s \<Rightarrow> (error + Column) \<times> 's"
  Rewind :: "'s \<Rightarrow> 's"

record sparseMapping =
  si :: structInspection
  cf :: string
  key :: string
  components :: "string list"
  componentsMap :: "string \<rightharpoonup> bool"

record compactMapping = sparseMapping +
  valueField :: string

datatype Mapping = Sparse sparseMapping | Compact compactMapping

section \<open>Composite codec\<close>

text \<open>
  Modelled from the spec: \<open>packComposite\<close>, \<open>unpackComposite\<close> and \<open>eocEquals\<close>
  are not part of the sources. Layout of one component: a 2-byte big-endian length
  prefix, the raw bytes, a 1-byte end-of-component marker. The prefix has 16 bits, so the
  length is stored modulo \<open>2 ^ 16\<close>. No statement below depends on the marker's value.
\<close>

definition PutUint16 :: "16 word \<Rightarrow> bytes" where
  "PutUint16 x = [ucast (drop_bit 8 x), ucast x]"

definition Uint16 :: "byte \<Rightarrow> byte \<Rightarrow> 16 word" where
  "Uint16 b0 b1 = ucast b1 OR push_bit 8 (ucast b0)"

definition eocEquals :: byte where
  "eocEquals = 0"

definition packComposite :: "bytes \<Rightarrow> byte \<Rightarrow> bytes" where
  "packComposite component eoc = PutUint16 (of_nat (length component)) @ component @ [eoc]"

text \<open>
  \<open>unpackComposite\<close> reads components until the bytes are used up. The spec gives no
  result for bytes that end inside a component; the model answers \<open>None\<close> there.
\<close>

fun unpackComposite :: "bytes \<Rightarrow> bytes list option" where
  "unpackComposite [] = Some []"
| "unpackComposite [b0] = None"
| "unpackComposite (b0 # b1 # rest) =
     (let l = unat (Uint16 b0 b1) in
      if length rest < l + 1 then None
      else map_option ((#) (take l rest)) (unpackComposite (drop (l + 1) rest)))"

text \<open>
  \<open>pack\<close> of the spec: the components packed one after the other, which is what
  \<open>startMap\<close> and \<open>Map\<close> build by appending \<open>packComposite b eocEquals\<close>.
\<close>

definition pack :: "bytes list \<Rightarrow> bytes" where
  "pack cs = concat (map (\<lambda>c. packComposite c eocEquals) cs)"

section \<open>Construction of a mapping\<close>

text \<open>\<open>strings.Split\<close> of the Go library, for a separator of one character.\<close>

fun Split :: "string \<Rightarrow> char \<Rightarrow> string list" where
  "Split [] sep = [[]]"
| "Split (c # cs) sep =
     (if c = sep then [] # Split cs sep
      else (case Split cs sep of [] \<Rightarrow> [[c]] | w # ws \<Rightarrow> (c # w) # ws))"

definition newSparseMapping ::
  "structInspection \<Rightarrow> string \<Rightarrow> string \<Rightarrow> string list \<Rightarrow> sparseMapping" where
  "newSparseMapping insp cfName keyField componentFields =
     \<lparr> si = insp, cf = cfName, key = keyField, components = componentFields,
       componentsMap = fold (\<lambda>f cm. cm(f \<mapsto> True)) componentFields Map.empty \<rparr>"

definition newCompactMapping ::
  "structInspection \<Rightarrow> string \<Rightarrow> string \<Rightarrow> string \<Rightarrow> string list \<Rightarrow> compactMapping" where
  "newCompactMapping insp cfName keyField val componentFields =
     sparseMapping.extend (newSparseMapping insp cfName keyField componentFields)
       (compactMapping.fields val)"

definition NewMapping :: "source \<Rightarrow> error + Mapping" where
  "NewMapping src =
     (case validateAndInspectStruct src of
        Inl e \<Rightarrow> Inl e
      | Inr (v, insp) \<Rightarrow>
     (case globalTags insp ''cf'' of
        None \<Rightarrow> Inl (MandatoryTagNotFound ''cf'' (rtype insp))
      | Some cfName \<Rightarrow>
     (case globalTags insp ''key'' of
        None \<Rightarrow> Inl (MandatoryTagNotFound ''key'' (rtype insp))
      | Some k \<Rightarrow>
     (case goFields insp k of
        None \<Rightarrow> Inl (KeyFieldNotFound k (rtype insp))
      | Some kf \<Rightarrow>
     (let colsS = (case globalTags insp ''cols'' of None \<Rightarrow> [] | Some cols \<Rightarrow> Split cols CHR '','') in
      case find (\<lambda>c. goFields insp c = None) colsS of
        Some c \<Rightarrow> Inl (CompositeFieldNotFound c (rtype insp))
      | None \<Rightarrow>
     (let val = (case globalTags insp ''value'' of None \<Rightarrow> [] | Some x \<Rightarrow> x) in
      if globalTags insp ''value'' \<noteq> None \<and> goFields insp val = None
      then Inl (ValueFieldNotFound val (rtype insp))
      else
     (let mapping = (case globalTags insp ''mapping'' of None \<Rightarrow> ''sparse'' | Some x \<Rightarrow> x) in
      if mapping = ''sparse'' then Inr (Sparse (newSparseMapping insp cfName k colsS))
      else if mapping = ''compact'' then Inr (Compact (newCompactMapping insp cfName k val colsS))
      else Inl (UnrecognizedMappingType mapping (rtype insp)))))))))"

section \<open>Map\<close>

text \<open>The loop of \<open>startMap\<close> that packs the component fields, in their declared order.\<close>

fun startMap_composite ::
  "codec \<Rightarrow> structInspection \<Rightarrow> structValue \<Rightarrow> string list \<Rightarrow> bytes \<Rightarrow> error + bytes" where
  "startMap_composite C insp v [] composite = Inr composite"
| "startMap_composite C insp v (c # cs) composite =
     (case goFields insp c of
        None \<Rightarrow> Inl (MappingComponentFieldNotFound c (rtype insp))
      | Some f \<Rightarrow>
          (case marshalValue C f v of
             Inl e \<Rightarrow> Inl e
           | Inr b \<Rightarrow> startMap_composite C insp v cs (composite @ packComposite b eocEquals)))"

definition startMap ::
  "codec \<Rightarrow> 'a sparseMapping_scheme \<Rightarrow> source
     \<Rightarrow> error + Row \<times> structValue \<times> structInspection \<times> bytes" where
  "startMap C m src =
     (case validateAndInspectStruct src of
        Inl e \<Rightarrow> Inl e
      | Inr (v, insp) \<Rightarrow>
          (case goFields insp (key m) of
             None \<Rightarrow> Inl (MappingKeyFieldNotFound (key m) (rtype insp))
           | Some f \<Rightarrow>
               (case marshalValue C f v of
                  Inl e \<Rightarrow> Inl e
                | Inr b \<Rightarrow>
                    (case startMap_composite C insp v (components m) [] of
                       Inl e \<Rightarrow> Inl e
                     | Inr composite \<Rightarrow> Inr (\<lparr> Key = b, Columns = [] \<rparr>, v, insp, composite)))))"

text \<open>The loop of the sparse \<open>Map\<close> over \<open>orderedFields\<close>; \<open>acc\<close> is \<open>row.Columns\<close>.\<close>

fun Map_columns ::
  "codec \<Rightarrow> 'a sparseMapping_scheme \<Rightarrow> structValue \<Rightarrow> bytes \<Rightarrow> field list \<Rightarrow> Column list
     \<Rightarrow> error + Column list" where
  "Map_columns C m v composite [] acc = Inr acc"
| "Map_columns C m v composite (f # fs) acc =
     (if name f = key m then Map_columns C m v composite fs acc
      else if componentsMap m (name f) \<noteq> None then Map_columns C m v composite fs acc
      else
        (case marshalName C f of
           Inl e \<Rightarrow> Inl e
         | Inr columnName \<Rightarrow>
             (let cp = (if length composite > 0
                        then composite @ packComposite columnName eocEquals
                        else columnName) in
              case marshalValue C f v of
                Inl e \<Rightarrow> Inl e
              | Inr columnValue \<Rightarrow>
                  Map_columns C m v composite fs
                    (acc @ [\<lparr> Name = cp, Value = columnValue, Ttl = 0, Timestamp = 0 \<rparr>]))))"

definition sparseMapping_Map :: "codec \<Rightarrow> 'a sparseMapping_scheme \<Rightarrow> source \<Rightarrow> error + Row" where
  "sparseMapping_Map C m src =
     (case startMap C m src of
        Inl e \<Rightarrow> Inl e
      | Inr (row, v, insp, composite) \<Rightarrow>
          (case Map_columns C m v composite (orderedFields insp) (Columns row) of
             Inl e \<Rightarrow> Inl e
           | Inr cols \<Rightarrow> Inr (row\<lparr> Columns := cols \<rparr>)))"

definition compactMapping_Map :: "codec \<Rightarrow> compactMapping \<Rightarrow> source \<Rightarrow> error + Row" where
  "compactMapping_Map C m src =
     (case startMap C m src of
        Inl e \<Rightarrow> Inl e
      | Inr (row, v, insp, composite) \<Rightarrow>
          (case goFields insp (valueField m) of
             Some f \<Rightarrow>
               (case marshalValue C f v of
                  Inl e \<Rightarrow> Inl e
                | Inr columnValue \<Rightarrow>
                    Inr (row\<lparr> Columns := Columns row @
                      [\<lparr> Name = composite, Value = columnValue, Ttl = 0, Timestamp = 0 \<rparr>] \<rparr>))
           | None \<Rightarrow>
               Inr (row\<lparr> Columns := Columns row @
                 [\<lparr> Name = composite, Value = [], Ttl = 0, Timestamp = 0 \<rparr>] \<rparr>)))"

section \<open>Unmap\<close>

definition startUnmap ::
  "codec \<Rightarrow> 'a sparseMapping_scheme \<Rightarrow> source \<Rightarrow> 's RowProvider \<Rightarrow> 's
     \<Rightarrow> (error + structValue \<times> structInspection) \<times> 's" where
  "startUnmap C m destination p s =
     (case validateAndInspectStruct destination of
        Inl e \<Rightarrow> (Inl e, s)
      | Inr (v, insp) \<Rightarrow>
          (case goFields insp (key m) of
             None \<Rightarrow> (Inl (MappingKeyFieldNotFound (key m) (rtype insp)), s)
           | Some f \<Rightarrow>
               (case provKey p s of
                  (Inl e, s') \<Rightarrow> (Inl e, s')
                | (Inr k, s') \<Rightarrow>
                    (case unmarshalValue C f k v of
                       (Some e, v') \<Rightarrow> (Inl e, s')
                     | (None, v') \<Rightarrow> (Inr (v', insp), s')))))"

text \<open>
  The loop of \<open>unmapComponents\<close>: \<open>i\<close> is the index of the component field \<open>c\<close>.
  Fields written before a failure stay written.
\<close>

fun unmapComponents_from ::
  "codec \<Rightarrow> structInspection \<Rightarrow> bytes list \<Rightarrow> nat \<Rightarrow> string list \<Rightarrow> structValue
     \<Rightarrow> error option \<times> structValue" where
  "unmapComponents_from C insp comps i [] v = (None, v)"
| "unmapComponents_from C insp comps i (c # cs) v =
     (case goFields insp c of
        None \<Rightarrow> (Some (MappingComponentFieldNotFound c (rtype insp)), v)
      | Some f \<Rightarrow>
          if i < length comps then
            (case unmarshalValue C f (comps ! i) v of
               (Some e, v') \<Rightarrow> (Some e, v')
             | (None, v') \<Rightarrow> unmapComponents_from C insp comps (Suc i) cs v')
          else (Some IndexOutOfRange, v))"

definition unmapComponents ::
  "codec \<Rightarrow> 'a sparseMapping_scheme \<Rightarrow> structInspection \<Rightarrow> bytes list \<Rightarrow> structValue
     \<Rightarrow> error option \<times> structValue" where
  "unmapComponents C m insp comps v = unmapComponents_from C insp comps 0 (components m) v"

text \<open>The components of a column name, before the count is checked.\<close>

definition nameComponents :: "'a sparseMapping_scheme \<Rightarrow> Column \<Rightarrow> bytes list option" where
  "nameComponents m column =
     (if length (components m) > 0 then unpackComposite (Name column) else Some [Name column])"

definition extractComponents ::
  "'a sparseMapping_scheme \<Rightarrow> Column \<Rightarrow> structInspection \<Rightarrow> nat \<Rightarrow> error + bytes list" where
  "extractComponents m column insp bias =
     (case nameComponents m column of
        None \<Rightarrow> Inl MalformedComposite
      | Some comps \<Rightarrow>
          if length comps \<noteq> length (components m) + bias
          then Inl (ComponentCountMismatch (rtype insp))
          else Inr comps)"

text \<open>
  The two nested loops of \<open>isNewComponents\<close> return \<open>true\<close> at the first index that
  differs. All reads are in range: \<open>i\<close> is below both lengths and \<open>j\<close> below the
  common length of the two components.
\<close>

definition isNewComponents :: "bytes list \<Rightarrow> bytes list \<Rightarrow> nat \<Rightarrow> bool" where
  "isNewComponents prev nxt bias =
     (if length prev \<noteq> length nxt then True
      else list_ex (\<lambda>i.
             if length (prev ! i) \<noteq> length (nxt ! i) then True
             else list_ex (\<lambda>j. prev ! i ! j \<noteq> nxt ! i ! j) [0..<length (prev ! i)])
           [0..<length prev - bias])"

text \<open>
  The end of one turn of the sparse loop: the trailing component is unmarshalled as the
  field name, and the column value goes into the field of that name, if there is one.
  The variable that receives the name is a Go \<open>string\<close>, so a codec result of another
  kind cannot occur in Go; the model makes it an error.
\<close>

definition unmapField ::
  "codec \<Rightarrow> structInspection \<Rightarrow> Column \<Rightarrow> bytes list \<Rightarrow> structValue
     \<Rightarrow> error option \<times> structValue" where
  "unmapField C insp column comps v =
     (if comps = [] then (Some IndexOutOfRange, v)
      else
        (case Unmarshal C (comps ! (length comps - 1)) UTF8Type (VString []) of
           Inl e \<Rightarrow> (Some (FieldNameUnmarshalError (rtype insp) e), v)
         | Inr (VString n) \<Rightarrow>
             (case cassandraFields insp n of
                None \<Rightarrow> (None, v)
              | Some f \<Rightarrow>
                  (case unmarshalValue C f (Value column) v of
                     (Some e, v') \<Rightarrow> (Some (ColumnUnmarshalError n e), v')
                   | (None, v') \<Rightarrow> (None, v')))
         | Inr x \<Rightarrow>
             (Some (FieldNameUnmarshalError (rtype insp) (CodecError ''not a string'')), v)))"

text \<open>
  The \<open>for\<close> loop of the sparse \<open>Unmap\<close>. It runs as long as the provider hands out
  columns of one group, so it need not end: \<open>None\<close> is the run that never returns.
  The result is the returned error (\<open>None\<close> for \<open>nil\<close>), the struct and the
  provider's state.
\<close>

partial_function (option) unmapLoop ::
  "codec \<Rightarrow> 'a sparseMapping_scheme \<Rightarrow> 's RowProvider \<Rightarrow> structInspection \<Rightarrow> bool
     \<Rightarrow> bytes list \<Rightarrow> structValue \<Rightarrow> 's \<Rightarrow> (error option \<times> structValue \<times> 's) option" where
  "unmapLoop C m p insp compositeFieldsAreSet previousComponents v s =
     (case NextColumn p s of
        (Inl e, s') \<Rightarrow>
          if e = Done then Some (Some Done, v, s')
          else if e = EndBeforeLimit then
            (if compositeFieldsAreSet then Some (None, v, s') else Some (Some Done, v, s'))
          else if e = EndAtLimit then Some (Some Done, v, s')
          else Some (Some e, v, s')
      | (Inr column, s') \<Rightarrow>
          (case extractComponents m column insp 1 of
             Inl e \<Rightarrow> Some (Some e, v, s')
           | Inr comps \<Rightarrow>
               if \<not> compositeFieldsAreSet then
                 (case unmapComponents C m insp comps v of
                    (Some e, v1) \<Rightarrow> Some (Some e, v1, s')
                  | (None, v1) \<Rightarrow>
                      (case unmapField C insp column comps v1 of
                         (Some e, v2) \<Rightarrow> Some (Some e, v2, s')
                       | (None, v2) \<Rightarrow> unmapLoop C m p insp True comps v2 s'))
               else if isNewComponents previousComponents comps 1
               then Some (None, v, Rewind p s')
               else
                 (case unmapField C insp column comps v of
                    (Some e, v2) \<Rightarrow> Some (Some e, v2, s')
                  | (None, v2) \<Rightarrow> unmapLoop C m p insp True comps v2 s')))"

definition sparseMapping_Unmap ::
  "codec \<Rightarrow> 'a sparseMapping_scheme \<Rightarrow> source \<Rightarrow> 's RowProvider \<Rightarrow> 's
     \<Rightarrow> (error option \<times> source \<times> 's) option" where
  "sparseMapping_Unmap C m destination p s =
     (case startUnmap C m destination p s of
        (Inl e, s0) \<Rightarrow> Some (Some e, destination, s0)
      | (Inr (v, insp), s0) \<Rightarrow>
          map_option (\<lambda>(e, v', s'). (e, StructPtr insp v', s'))
            (unmapLoop C m p insp False [] v s0))"

definition compactMapping_Unmap ::
  "codec \<Rightarrow> compactMapping \<Rightarrow> source \<Rightarrow> 's RowProvider \<Rightarrow> 's \<Rightarrow> error option \<times> source \<times> 's" where
  "compactMapping_Unmap C m destination p s =
     (case startUnmap C m destination p s of
        (Inl e, s0) \<Rightarrow> (Some e, destination, s0)
      | (Inr (v, insp), s0) \<Rightarrow>
          (case NextColumn p s0 of
             (Inl e, s1) \<Rightarrow>
               (if e = Done then (Some Done, StructPtr insp v, s1)
                else if e = EndBeforeLimit then (Some Done, StructPtr insp v, s1)
                else if e = EndAtLimit then (Some Done, StructPtr insp v, s1)
                else (Some e, StructPtr insp v, s1))
           | (Inr column, s1) \<Rightarrow>
               (case extractComponents m column insp 0 of
                  Inl e \<Rightarrow> (Some e, StructPtr insp v, s1)
                | Inr comps \<Rightarrow>
                    (case unmapComponents C m insp comps v of
                       (Some e, v1) \<Rightarrow> (Some e, StructPtr insp v1, s1)
                     | (None, v1) \<Rightarrow>
                         (case goFields insp (valueField m) of
                            None \<Rightarrow> (None, StructPtr insp v1, s1)
                          | Some f \<Rightarrow>
                              (case unmarshalValue C f (Value column) v1 of
                                 (Some e, v2) \<Rightarrow>
                                   (Some (CompactValueUnmarshalError e), StructPtr insp v2, s1)
                               | (None, v2) \<Rightarrow> (None, StructPtr insp v2, s1)))))))"

section \<open>A provider over a list of columns\<close>

text \<open>
  Modelled from the spec: the implementations of \<open>RowProvider\<close> are not part of the
  sources. This one is a cursor over a fixed list of columns: \<open>NextColumn\<close> hands out
  the column under the cursor and advances, or gives the signal \<open>curEnd\<close> when the
  columns are used up; \<open>Rewind\<close> moves the cursor back one column.
\<close>

record cursor =
  curKey :: bytes
  curColumns :: "Column list"
  curPos :: nat
  curEnd :: error

definition listProvider :: "cursor RowProvider" where
  "listProvider =
     \<lparr> provKey = (\<lambda>s. (Inr (curKey s), s)),
       NextColumn = (\<lambda>s. if curPos s < length (curColumns s)
                          then (Inr (curColumns s ! curPos s), s\<lparr> curPos := curPos s + 1 \<rparr>)
                          else (Inl (curEnd s), s)),
       Rewind = (\<lambda>s. s\<lparr> curPos := curPos s - 1 \<rparr>) \<rparr>"

section \<open>Registries and a codec to run the model on\<close>

text \<open>
  Modelled from the spec: the registry that inspection builds for a struct type, from the
  type's name, its tags and its fields in declaration order. Both lookup tables hold the
  fields of \<open>orderedFields\<close>, by Go name and by store-facing name.
\<close>

definition inspectionOf :: "string \<Rightarrow> (string \<rightharpoonup> string) \<Rightarrow> field list \<Rightarrow> structInspection" where
  "inspectionOf tname tags fs =
     \<lparr> rtype = tname, globalTags = tags, orderedFields = fs,
       goFields = map_of (map (\<lambda>f. (name f, f)) fs),
       cassandraFields = map_of (map (\<lambda>f. (cassandraName f, f)) fs) \<rparr>"

text \<open>
  A registry is consistent when its lookup tables are the ones built from its ordered
  fields and no two fields share a Go name or a store-facing name.
\<close>

definition registryConsistent :: "structInspection \<Rightarrow> bool" where
  "registryConsistent insp \<longleftrightarrow>
     goFields insp = map_of (map (\<lambda>f. (name f, f)) (orderedFields insp))
     \<and> cassandraFields insp = map_of (map (\<lambda>f. (cassandraName f, f)) (orderedFields insp))
     \<and> distinct (map name (orderedFields insp))
     \<and> distinct (map cassandraName (orderedFields insp))"

text \<open>
  Modelled from the spec: a primitive codec to run the model on. Strings and byte
  strings are their bytes, a long is 8 bytes big-endian, a boolean is one byte.
  Unmarshalling into a variable of another Go type than the tag's fails.
\<close>

definition byteOfChar :: "char \<Rightarrow> byte" where
  "byteOfChar c = of_nat (of_char c)"

definition charOfByte :: "byte \<Rightarrow> char" where
  "charOfByte b = char_of (unat b)"

definition demoMarshal :: "gval \<Rightarrow> TypeDesc \<Rightarrow> error + bytes" where
  "demoMarshal x t =
     (case (x, t) of
        (VString s, UTF8Type) \<Rightarrow> Inr (map byteOfChar s)
      | (VBytes b, BytesType) \<Rightarrow> Inr b
      | (VLong w, LongType) \<Rightarrow> Inr (map (\<lambda>i. ucast (drop_bit (8 * i) w)) [7, 6, 5, 4, 3, 2, 1, 0])
      | (VBool b, BooleanType) \<Rightarrow> Inr [if b then 1 else 0]
      | _ \<Rightarrow> Inl (CodecError ''cannot marshal''))"

definition demoUnmarshal :: "bytes \<Rightarrow> TypeDesc \<Rightarrow> gval \<Rightarrow> error + gval" where
  "demoUnmarshal b t x =
     (case (t, x) of
        (UTF8Type, VString s) \<Rightarrow> Inr (VString (map charOfByte b))
      | (BytesType, VBytes c) \<Rightarrow> Inr (VBytes b)
      | (LongType, VLong w) \<Rightarrow>
          if length b = 8 then Inr (VLong (foldl (\<lambda>acc y. push_bit 8 acc OR ucast y) 0 b))
          else Inl (CodecError ''cannot unmarshal'')
      | (BooleanType, VBool c) \<Rightarrow>
          if length b = 1 then Inr (VBool (b \<noteq> [0]))
          else Inl (CodecError ''cannot unmarshal'')
      | _ \<Rightarrow> Inl (CodecError ''cannot unmarshal''))"

definition demoCodec :: codec where
  "demoCodec = \<lparr> Marshal = demoMarshal, Unmarshal = demoUnmarshal \<rparr>"

text \<open>
  The struct type of the spec's scenario: fields \<open>Id\<close>, \<open>Kind\<close>, \<open>Name\<close> and
  \<open>Age\<close>, in this order, with the tags given as argument.
\<close>

definition userFields :: "field list" where
  "userFields =
     [\<lparr> name = ''Id'', cassandraType = UTF8Type, cassandraName = ''Id'' \<rparr>,
      \<lparr> name = ''Kind'', cassandraType = UTF8Type, cassandraName = ''Kind'' \<rparr>,
      \<lparr> name = ''Name'', cassandraType = UTF8Type, cassandraName = ''Name'' \<rparr>,
      \<lparr> name = ''Age'', cassandraType = LongType, cassandraName = ''Age'' \<rparr>]"

definition userType :: "(string \<rightharpoonup> string) \<Rightarrow> structInspection" where
  "userType tags = inspectionOf ''User'' tags userFields"

definition userTags :: "string \<rightharpoonup> string" where
  "userTags = [''cf'' \<mapsto> ''users'', ''key'' \<mapsto> ''Id'', ''cols'' \<mapsto> ''Kind'']"

definition alice :: structValue where
  "alice = (\<lambda>n. VString [])
     (''Id'' := VString ''u1'', ''Kind'' := VString ''profile'',
      ''Name'' := VString ''Alice'', ''Age'' := VLong 30)"

text \<open>A fresh \<open>User\<close>: every field holds the zero value of its Go type.\<close>

definition freshUser :: structValue where
  "freshUser = (\<lambda>n. VString [])(''Age'' := VLong 0)"

text \<open>Tags of a compact mapping without component fields.\<close>

definition compactNoColsTags :: "string \<rightharpoonup> string" where
  "compactNoColsTags =
     [''cf'' \<mapsto> ''users'', ''key'' \<mapsto> ''Id'', ''value'' \<mapsto> ''Name'', ''mapping'' \<mapsto> ''compact'']"

text \<open>
  The sparse mapping of the scenario, the bytes of a string under \<open>demoCodec\<close>, and a
  column as \<open>Map\<close> builds it (no time to live, no timestamp).
\<close>

definition userMapping :: sparseMapping where
  "userMapping = newSparseMapping (userType userTags) ''users'' ''Id'' [''Kind'']"

definition utf8 :: "string \<Rightarrow> bytes" where
  "utf8 s = map byteOfChar s"

definition mkColumn :: "bytes \<Rightarrow> bytes \<Rightarrow> Column" where
  "mkColumn n x = \<lparr> Name = n, Value = x, Ttl = 0, Timestamp = 0 \<rparr>"

section \<open>One turn of the sparse loop\<close>

text \<open>
  What the loop of the sparse \<open>Unmap\<close> does with one column, as a function of its own
  (the lemma \<open>unmapLoop_turn\<close> below shows that the loop is made of such turns).
  A turn either ends the call, with the returned error, the struct, and whether the
  provider is rewound, or goes on with the components it has seen and the struct.
\<close>

datatype turn = Stop "error option" structValue bool | Continue "bytes list" structValue

definition fieldTurn ::
  "codec \<Rightarrow> structInspection \<Rightarrow> Column \<Rightarrow> bytes list \<Rightarrow> structValue \<Rightarrow> turn" where
  "fieldTurn C insp column comps v =
     (case unmapField C insp column comps v of
        (Some e, v2) \<Rightarrow> Stop (Some e) v2 False
      | (None, v2) \<Rightarrow> Continue comps v2)"

definition unmapTurn ::
  "codec \<Rightarrow> 'a sparseMapping_scheme \<Rightarrow> structInspection \<Rightarrow> bool \<Rightarrow> bytes list
     \<Rightarrow> structValue \<Rightarrow> Column \<Rightarrow> turn" where
  "unmapTurn C m insp compositeFieldsAreSet previousComponents v column =
     (case extractComponents m column insp 1 of
        Inl e \<Rightarrow> Stop (Some e) v False
      | Inr comps \<Rightarrow>
          if \<not> compositeFieldsAreSet then
            (case unmapComponents C m insp comps v of
               (Some e, v1) \<Rightarrow> Stop (Some e) v1 False
             | (None, v1) \<Rightarrow> fieldTurn C insp column comps v1)
          else if isNewComponents previousComponents comps 1 then Stop None v True
          else fieldTurn C insp column comps v)"

text \<open>
  The variables of the sparse loop (\<open>compositeFieldsAreSet\<close>, \<open>previousComponents\<close>,
  the struct, the provider's state) after \<open>n\<close> more columns have been consumed, each
  by a turn that goes on; \<open>None\<close> when the provider or a turn ends the call before.
\<close>

fun consumeColumns ::
  "codec \<Rightarrow> 'a sparseMapping_scheme \<Rightarrow> 's RowProvider \<Rightarrow> structInspection \<Rightarrow> nat
     \<Rightarrow> bool \<times> bytes list \<times> structValue \<times> 's \<Rightarrow> (bool \<times> bytes list \<times> structValue \<times> 's) option" where
  "consumeColumns C m p insp 0 st = Some st"
| "consumeColumns C m p insp (Suc n) (compositeFieldsAreSet, previousComponents, v, s) =
     (case NextColumn p s of
        (Inl e, s') \<Rightarrow> None
      | (Inr column, s') \<Rightarrow>
          (case unmapTurn C m insp compositeFieldsAreSet previousComponents v column of
             Stop e v' rewound \<Rightarrow> None
           | Continue comps v' \<Rightarrow> consumeColumns C m p insp n (True, comps, v', s')))"

section \<open>Notions for the round trips\<close>

text \<open>
  The struct that holds the values of \<open>r\<close> in the fields \<open>S\<close> and those of \<open>d\<close>
  in all others: a destination \<open>d\<close> while the fields \<open>S\<close> have been decoded.
\<close>

definition mixed :: "string set \<Rightarrow> structValue \<Rightarrow> structValue \<Rightarrow> structValue" where
  "mixed S r d = (\<lambda>n. if n \<in> S then r n else d n)"

text \<open>
  The contract of the primitive codec that a round trip of the record \<open>r\<close> into the
  destination \<open>d\<close> rests on: what \<open>Marshal\<close> makes of the value of a field,
  \<open>Unmarshal\<close> reads back into that field of the destination, whether the field is
  still as in \<open>d\<close> or has been written already; and what \<open>Marshal\<close> makes of a
  field's store-facing name, \<open>Unmarshal\<close> reads back into an empty string variable.
\<close>

definition valueRoundTrips :: "codec \<Rightarrow> structValue \<Rightarrow> structValue \<Rightarrow> field \<Rightarrow> bool" where
  "valueRoundTrips C r d f \<longleftrightarrow>
     (\<forall>b. Marshal C (r (name f)) (cassandraType f) = Inr b \<longrightarrow>
        Unmarshal C b (cassandraType f) (d (name f)) = Inr (r (name f))
        \<and> Unmarshal C b (cassandraType f) (r (name f)) = Inr (r (name f)))"

definition nameRoundTrips :: "codec \<Rightarrow> field \<Rightarrow> bool" where
  "nameRoundTrips C f \<longleftrightarrow>
     (\<forall>b. Marshal C (VString (cassandraName f)) UTF8Type = Inr b \<longrightarrow>
        Unmarshal C b UTF8Type (VString []) = Inr (VString (cassandraName f)))"

definition codecRoundTrips :: "codec \<Rightarrow> structInspection \<Rightarrow> structValue \<Rightarrow> structValue \<Rightarrow> bool" where
  "codecRoundTrips C insp r d \<longleftrightarrow>
     list_all (\<lambda>f. valueRoundTrips C r d f \<and> nameRoundTrips C f) (orderedFields insp)"

text \<open>
  What has to fit the 2-byte length prefix of a component. \<open>componentValuesFit\<close>: the
  marshalled value of every component field \<open>cs\<close> of the record is shorter than
  \<open>2 ^ 16\<close> bytes. \<open>columnNamesFit\<close>: so is the marshalled name of every field that the
  sparse \<open>Map\<close> makes a column of (the fields that are neither the key nor a component
  field). The key, the values of the other fields and the names of the key and component
  fields are not bounded: they are stored as they are.
\<close>

definition componentValuesFit ::
  "codec \<Rightarrow> structInspection \<Rightarrow> string list \<Rightarrow> structValue \<Rightarrow> bool" where
  "componentValuesFit C insp cs r \<longleftrightarrow>
     list_all (\<lambda>c. case goFields insp c of
                     None \<Rightarrow> True
                   | Some f \<Rightarrow>
                       (\<forall>b. Marshal C (r (name f)) (cassandraType f) = Inr b \<longrightarrow> length b < 65536))
       cs"

definition columnNamesFit ::
  "codec \<Rightarrow> 'a sparseMapping_scheme \<Rightarrow> structInspection \<Rightarrow> bool" where
  "columnNamesFit C m insp \<longleftrightarrow>
     list_all (\<lambda>f. \<forall>b. Marshal C (VString (cassandraName f)) UTF8Type = Inr b \<longrightarrow> length b < 65536)
       (filter (\<lambda>f. name f \<noteq> key m \<and> name f \<notin> set (components m)) (orderedFields insp))"

text \<open>
  \<open>col\<close> is the column that the sparse \<open>Map\<close> builds for the field \<open>f\<close> of the
  struct \<open>v\<close>, after the packed components \<open>composite\<close>.
\<close>

definition isColumnOf :: "codec \<Rightarrow> structValue \<Rightarrow> bytes \<Rightarrow> field \<Rightarrow> Column \<Rightarrow> bool" where
  "isColumnOf C v composite f col \<longleftrightarrow>
     (\<exists>columnName columnValue.
        marshalName C f = Inr columnName \<and> marshalValue C f v = Inr columnValue
        \<and> col = \<lparr> Name = (if length composite > 0
                             then composite @ packComposite columnName eocEquals
                             else columnName),
                    Value = columnValue, Ttl = 0, Timestamp = 0 \<rparr>)"

text \<open>
  Tags that make every field but the key a component field, and tags of a compact
  mapping with one component field and the value field \<open>Name\<close>.
\<close>

definition allComponentsTags :: "string \<rightharpoonup> string" where
  "allComponentsTags = [''cf'' \<mapsto> ''users'', ''key'' \<mapsto> ''Id'', ''cols'' \<mapsto> ''Kind,Name,Age'']"

definition compactTags :: "string \<rightharpoonup> string" where
  "compactTags =
     [''cf'' \<mapsto> ''users'', ''key'' \<mapsto> ''Id'', ''cols'' \<mapsto> ''Kind'', ''value'' \<mapsto> ''Name'',
      ''mapping'' \<mapsto> ''compact'']"

text \<open>A struct type with the fields \<open>Id\<close>, \<open>Kind\<close> and \<open>Name\<close> only.\<close>

definition entryType :: "(string \<rightharpoonup> string) \<Rightarrow> structInspection" where
  "entryType tags = inspectionOf ''Entry'' tags (take 3 userFields)"

definition bob :: structValue where
  "bob = (\<lambda>n. VString [])
     (''Id'' := VString ''u2'', ''Kind'' := VString ''settings'', ''Name'' := VString ''Bob'')"

text \<open>A fresh \<open>Entry\<close>.\<close>

definition freshEntry :: structValue where
  "freshEntry = (\<lambda>n. VString [])"

section \<open>The composite codec round trip\<close>

lemma Uint16_PutUint16: "Uint16 (ucast (drop_bit 8 x)) (ucast x) = x"
  unfolding Uint16_def
  by (rule bit_word_eqI) (auto simp add: bit_simps)

lemma unat_length16: "n < 65536 \<Longrightarrow> unat (of_nat n :: 16 word) = n"
  by (simp add: unat_of_nat)

lemma unpackComposite_packComposite:
  assumes "length c < 65536"
  shows "unpackComposite (packComposite c e @ rest) = map_option ((#) c) (unpackComposite rest)"
  using assms by (simp add: packComposite_def PutUint16_def Uint16_PutUint16 unat_length16)

lemma unpackComposite_pack_append:
  assumes "\<forall>c\<in>set cs. length c < 65536"
  shows "unpackComposite (pack cs @ rest) = map_option ((@) cs) (unpackComposite rest)"
  using assms
proof (induction cs)
  case Nil
  show ?case by (simp add: pack_def option.map_ident)
next
  case (Cons c cs)
  have "pack (c # cs) @ rest = packComposite c eocEquals @ (pack cs @ rest)"
    by (simp add: pack_def)
  with Cons show ?case
    by (simp add: unpackComposite_packComposite option.map_comp comp_def)
qed

lemma unpackComposite_pack:
  "\<forall>c\<in>set cs. length c < 65536 \<Longrightarrow> unpackComposite (pack cs) = Some cs"
  using unpackComposite_pack_append [of cs "[]"] by simp

lemma length_packComposite: "length (packComposite c e) = length c + 3"
  by (simp add: packComposite_def PutUint16_def)

lemma length_pack: "length (pack cs) = (\<Sum>c\<leftarrow>cs. length c + 3)"
  by (induction cs) (simp_all add: pack_def length_packComposite)

text \<open>
  C3 (as stated, refuted): a component of \<open>2 ^ 16\<close> bytes does not survive the round
  trip, because its length does not fit the 2-byte prefix.
\<close>

theorem C3_long_component_counterexample:
  "unpackComposite (pack [replicate 65536 0]) \<noteq> Some [replicate 65536 0]"
  by (simp add: pack_def packComposite_def PutUint16_def Uint16_def eocEquals_def
        del: replicate_Suc)

text \<open>
  C3 (amended): for every finite sequence of byte strings each shorter than \<open>2 ^ 16\<close>
  bytes, the empty sequence and zero-length components included, unpacking the packed
  sequence gives the sequence back. For every sequence, each component takes its length
  plus 3 bytes, and the empty sequence packs to the empty byte string.
\<close>

theorem C3_pack_unpack_roundtrip:
  "((\<forall>c\<in>set cs. length c < 65536) \<longrightarrow> unpackComposite (pack cs) = Some cs)
   \<and> length (pack cs) = (\<Sum>c\<leftarrow>cs. length c + 3)
   \<and> pack [] = []"
  by (simp add: unpackComposite_pack length_pack) (simp add: pack_def)

theorem C3_pack_unpack_roundtrip_witness:
  "list_all (\<lambda>c. length c < 65536) [[1, 2], [], [3 :: byte]]
   \<and> unpackComposite (pack [[1, 2], [], [3]]) = Some [[1, 2], [], [3]]
   \<and> length (pack [[1, 2], [], [3]]) = 12"
  using C3_pack_unpack_roundtrip [of "[[1, 2], [], [3]]"] by simp

section \<open>Construction errors\<close>

lemma charOfByte_byteOfChar: "charOfByte (byteOfChar c) = c"
  by (simp add: charOfByte_def byteOfChar_def unat_of_nat)

lemma find_None_iff_set: "(find P xs = None) = (\<forall>x\<in>set xs. \<not> P x)"
  by (induction xs) auto

lemma find_Some_set: "find P xs = Some x \<Longrightarrow> x \<in> set xs \<and> P x"
  by (induction xs) (auto split: if_splits)

text \<open>
  C8: for a source that inspection accepts, \<open>NewMapping\<close> fails if and only if the
  \<open>cf\<close> tag is missing, the \<open>key\<close> tag is missing, the key names no declared field,
  a name listed in \<open>cols\<close> (the tag split at the commas) names no declared field, a
  \<open>value\<close> tag is present and names no declared field, or the \<open>mapping\<close> tag is
  neither \<open>sparse\<close> nor \<open>compact\<close>. Without a \<open>mapping\<close> tag, a successful
  construction yields a sparse mapping.
\<close>

theorem C8_NewMapping_fails_iff:
  assumes "validateAndInspectStruct src = Inr (v, insp)"
  shows "(isl (NewMapping src) \<longleftrightarrow>
            globalTags insp ''cf'' = None
          \<or> globalTags insp ''key'' = None
          \<or> (\<exists>k. globalTags insp ''key'' = Some k \<and> goFields insp k = None)
          \<or> (\<exists>cols c. globalTags insp ''cols'' = Some cols \<and> c \<in> set (Split cols CHR '','')
                \<and> goFields insp c = None)
          \<or> (\<exists>x. globalTags insp ''value'' = Some x \<and> goFields insp x = None)
          \<or> (\<exists>x. globalTags insp ''mapping'' = Some x \<and> x \<noteq> ''sparse'' \<and> x \<noteq> ''compact''))
       \<and> (globalTags insp ''mapping'' = None \<and> \<not> isl (NewMapping src)
            \<longrightarrow> (\<exists>m. NewMapping src = Inr (Sparse m)))"
  using assms
  by (auto simp add: NewMapping_def Let_def find_None_iff_set
        split: option.splits if_splits dest: find_Some_set)

theorem C8_NewMapping_fails_iff_witness:
  "isl (NewMapping (StructPtr (userType [''cf'' \<mapsto> ''users'', ''key'' \<mapsto> ''Nope'']) alice))
   \<and> \<not> isl (NewMapping (StructPtr (userType userTags) alice))
   \<and> isl (NewMapping (StructPtr (userType (userTags(''cols'' \<mapsto> ''Kind,''))) alice))"
proof -
  let ?noKey = "userType [''cf'' \<mapsto> ''users'', ''key'' \<mapsto> ''Nope'']"
  let ?badCols = "userType (userTags(''cols'' \<mapsto> ''Kind,''))"
  have 1: "isl (NewMapping (StructPtr ?noKey alice))"
    using C8_NewMapping_fails_iff [of "StructPtr ?noKey alice" alice ?noKey]
    by (simp add: userType_def inspectionOf_def userFields_def)
  have 2: "\<not> isl (NewMapping (StructPtr (userType userTags) alice))"
    using C8_NewMapping_fails_iff [of "StructPtr (userType userTags) alice" alice "userType userTags"]
    by (simp add: userType_def userTags_def inspectionOf_def userFields_def)
  have 3: "isl (NewMapping (StructPtr ?badCols alice))"
    using C8_NewMapping_fails_iff [of "StructPtr ?badCols alice" alice ?badCols]
    by (auto simp add: userType_def userTags_def inspectionOf_def userFields_def)
  from 1 2 3 show ?thesis by simp
qed

section \<open>The scenario of the spec\<close>

text \<open>
  C9: with the tags \<open>cf = users\<close>, \<open>key = Id\<close>, \<open>cols = Kind\<close> on the struct
  \<open>{Id, Kind, Name, Age}\<close>, \<open>NewMapping\<close> builds the sparse mapping, and \<open>Map\<close> of
  the record \<open>{u1, profile, Alice, 30}\<close> gives the key \<open>marshal u1\<close> and exactly
  two columns, in declaration order: \<open>pack [profile, Name]\<close> with value
  \<open>marshal Alice\<close>, then \<open>pack [profile, Age]\<close> with value \<open>marshal 30\<close>. The
  codec is any codec that marshals the six values involved.
\<close>

theorem C9_users_scenario:
  assumes "Marshal C (VString ''u1'') UTF8Type = Inr k"
    and "Marshal C (VString ''profile'') UTF8Type = Inr p"
    and "Marshal C (VString ''Name'') UTF8Type = Inr n1"
    and "Marshal C (VString ''Alice'') UTF8Type = Inr a"
    and "Marshal C (VString ''Age'') UTF8Type = Inr n2"
    and "Marshal C (VLong 30) LongType = Inr g"
  shows "NewMapping (StructPtr (userType userTags) alice)
           = Inr (Sparse (newSparseMapping (userType userTags) ''users'' ''Id'' [''Kind'']))
       \<and> sparseMapping_Map C (newSparseMapping (userType userTags) ''users'' ''Id'' [''Kind''])
             (StructPtr (userType userTags) alice)
           = Inr \<lparr> Key = k,
                   Columns = [\<lparr> Name = pack [p, n1], Value = a, Ttl = 0, Timestamp = 0 \<rparr>,
                              \<lparr> Name = pack [p, n2], Value = g, Ttl = 0, Timestamp = 0 \<rparr>] \<rparr>"
proof
  show "NewMapping (StructPtr (userType userTags) alice)
           = Inr (Sparse (newSparseMapping (userType userTags) ''users'' ''Id'' [''Kind'']))"
    by (simp add: NewMapping_def userType_def userTags_def inspectionOf_def userFields_def)
  have len: "length (packComposite p eocEquals) > 0"
    by (simp add: packComposite_def)
  show "sparseMapping_Map C (newSparseMapping (userType userTags) ''users'' ''Id'' [''Kind''])
             (StructPtr (userType userTags) alice)
           = Inr \<lparr> Key = k,
                   Columns = [\<lparr> Name = pack [p, n1], Value = a, Ttl = 0, Timestamp = 0 \<rparr>,
                              \<lparr> Name = pack [p, n2], Value = g, Ttl = 0, Timestamp = 0 \<rparr>] \<rparr>"
    using assms len
    by (simp add: sparseMapping_Map_def startMap_def newSparseMapping_def userType_def
          inspectionOf_def userFields_def alice_def marshalValue_def marshalName_def pack_def)
qed

theorem C9_users_scenario_witness:
  "sparseMapping_Map demoCodec (newSparseMapping (userType userTags) ''users'' ''Id'' [''Kind''])
             (StructPtr (userType userTags) alice)
     = Inr \<lparr> Key = [117, 49],
             Columns = [\<lparr> Name = pack [[112, 114, 111, 102, 105, 108, 101], [78, 97, 109, 101]],
                          Value = [65, 108, 105, 99, 101], Ttl = 0, Timestamp = 0 \<rparr>,
                        \<lparr> Name = pack [[112, 114, 111, 102, 105, 108, 101], [65, 103, 101]],
                          Value = [0, 0, 0, 0, 0, 0, 0, 30], Ttl = 0, Timestamp = 0 \<rparr>] \<rparr>"
  using C9_users_scenario [of demoCodec "[117, 49]" "[112, 114, 111, 102, 105, 108, 101]"
          "[78, 97, 109, 101]" "[65, 108, 105, 99, 101]" "[65, 103, 101]" "[0, 0, 0, 0, 0, 0, 0, 30]"]
  by (simp add: demoCodec_def demoMarshal_def byteOfChar_def)

section \<open>Compact mappings without component fields\<close>

lemma compactMapping_Map_single_column:
  assumes "compactMapping_Map C m src = Inr row"
  shows "\<exists>c. Columns row = [c]"
  using assms
  by (auto simp add: compactMapping_Map_def startMap_def split: sum.splits option.splits prod.splits)

text \<open>
  C10: for a compact mapping with no component fields, every \<open>Unmap\<close> call that
  gets a column from the provider returns the shape-mismatch error: the column name
  counts as one component where none is expected. This holds in particular for the one
  column that the same mapping's \<open>Map\<close> produces, fed through a provider over that
  row.
\<close>

theorem C10_compact_without_components_rejects:
  fixes m :: compactMapping
  assumes "components m = []"
  shows "(startUnmap C m destination p s = (Inr (v, insp), s0) \<and> NextColumn p s0 = (Inr column, s1)
            \<longrightarrow> compactMapping_Unmap C m destination p s
                  = (Some (ComponentCountMismatch (rtype insp)), StructPtr insp v, s1))
       \<and> (compactMapping_Map C m src = Inr row
            \<and> startUnmap C m destination listProvider
                  \<lparr> curKey = Key row, curColumns = Columns row, curPos = 0, curEnd = e \<rparr>
                = (Inr (v, insp), c0)
            \<longrightarrow> length (Columns row) = 1
                \<and> compactMapping_Unmap C m destination listProvider
                      \<lparr> curKey = Key row, curColumns = Columns row, curPos = 0, curEnd = e \<rparr>
                    = (Some (ComponentCountMismatch (rtype insp)), StructPtr insp v,
                       \<lparr> curKey = Key row, curColumns = Columns row, curPos = 1, curEnd = e \<rparr>))"
proof (intro conjI impI)
  assume "startUnmap C m destination p s = (Inr (v, insp), s0) \<and> NextColumn p s0 = (Inr column, s1)"
  with assms show "compactMapping_Unmap C m destination p s
                  = (Some (ComponentCountMismatch (rtype insp)), StructPtr insp v, s1)"
    by (simp add: compactMapping_Unmap_def extractComponents_def nameComponents_def)
next
  assume a: "compactMapping_Map C m src = Inr row
            \<and> startUnmap C m destination listProvider
                  \<lparr> curKey = Key row, curColumns = Columns row, curPos = 0, curEnd = e \<rparr>
                = (Inr (v, insp), c0)"
  then obtain c where c: "Columns row = [c]"
    using compactMapping_Map_single_column by blast
  then show "length (Columns row) = 1" by simp
  from a have c0: "c0 = \<lparr> curKey = Key row, curColumns = Columns row, curPos = 0, curEnd = e \<rparr>"
    by (auto simp add: startUnmap_def listProvider_def split: sum.splits option.splits prod.splits)
  show "compactMapping_Unmap C m destination listProvider
                      \<lparr> curKey = Key row, curColumns = Columns row, curPos = 0, curEnd = e \<rparr>
                    = (Some (ComponentCountMismatch (rtype insp)), StructPtr insp v,
                       \<lparr> curKey = Key row, curColumns = Columns row, curPos = 1, curEnd = e \<rparr>)"
    using a assms c c0
    by (simp add: compactMapping_Unmap_def extractComponents_def nameComponents_def listProvider_def)
qed


theorem C10_compact_without_components_rejects_witness:
  "NewMapping (StructPtr (userType compactNoColsTags) alice)
     = Inr (Compact (newCompactMapping (userType compactNoColsTags) ''users'' ''Id'' ''Name'' []))
   \<and> compactMapping_Map demoCodec
         (newCompactMapping (userType compactNoColsTags) ''users'' ''Id'' ''Name'' [])
         (StructPtr (userType compactNoColsTags) alice)
     = Inr \<lparr> Key = map byteOfChar ''u1'',
             Columns = [\<lparr> Name = [], Value = map byteOfChar ''Alice'', Ttl = 0, Timestamp = 0 \<rparr>] \<rparr>
   \<and> fst (compactMapping_Unmap demoCodec
         (newCompactMapping (userType compactNoColsTags) ''users'' ''Id'' ''Name'' [])
         (StructPtr (userType compactNoColsTags) freshUser) listProvider
         \<lparr> curKey = map byteOfChar ''u1'',
           curColumns = [\<lparr> Name = [], Value = map byteOfChar ''Alice'', Ttl = 0, Timestamp = 0 \<rparr>],
           curPos = 0, curEnd = EndBeforeLimit \<rparr>)
     = Some (ComponentCountMismatch ''User'')"
proof -
  let ?T = "userType compactNoColsTags"
  let ?m = "newCompactMapping ?T ''users'' ''Id'' ''Name'' []"
  let ?row = "\<lparr> Key = map byteOfChar ''u1'',
             Columns = [\<lparr> Name = [], Value = map byteOfChar ''Alice'', Ttl = 0, Timestamp = 0 \<rparr>] \<rparr>"
  let ?s = "\<lparr> curKey = Key ?row, curColumns = Columns ?row, curPos = 0, curEnd = EndBeforeLimit \<rparr>"
  have new: "NewMapping (StructPtr ?T alice) = Inr (Compact ?m)"
    by (simp add: NewMapping_def Let_def userType_def compactNoColsTags_def inspectionOf_def userFields_def)
  have comps: "components ?m = []"
    by (simp add: newCompactMapping_def newSparseMapping_def sparseMapping.defs compactMapping.defs)
  have row: "compactMapping_Map demoCodec ?m (StructPtr ?T alice) = Inr ?row"
    by (simp add: compactMapping_Map_def startMap_def newCompactMapping_def newSparseMapping_def
          sparseMapping.defs compactMapping.defs userType_def inspectionOf_def userFields_def
          alice_def marshalValue_def demoCodec_def demoMarshal_def)
  have start: "startUnmap demoCodec ?m (StructPtr ?T freshUser) listProvider ?s
                 = (Inr (freshUser(''Id'' := VString ''u1''), ?T), ?s)"
    by (simp add: startUnmap_def newCompactMapping_def newSparseMapping_def
          sparseMapping.defs compactMapping.defs userType_def inspectionOf_def userFields_def
          freshUser_def unmarshalValue_def demoCodec_def demoUnmarshal_def listProvider_def
          charOfByte_byteOfChar comp_def)
  have rt: "rtype ?T = ''User''"
    by (simp add: userType_def inspectionOf_def)
  from C10_compact_without_components_rejects [where C = demoCodec and src = "StructPtr ?T alice"
         and row = ?row and destination = "StructPtr ?T freshUser" and e = EndBeforeLimit
         and v = "freshUser(''Id'' := VString ''u1'')" and insp = ?T and ?c0.0 = ?s,
         OF comps, THEN conjunct2] row start rt
  have "fst (compactMapping_Unmap demoCodec ?m (StructPtr ?T freshUser) listProvider ?s)
          = Some (ComponentCountMismatch ''User'')"
    by simp
  with new row show ?thesis by simp
qed

section \<open>Groups of columns\<close>

lemma bytes_differ_iff:
  "(if length p \<noteq> length n then True else list_ex (\<lambda>j. p ! j \<noteq> n ! j) [0..<length p])
     \<longleftrightarrow> p \<noteq> (n :: bytes)"
proof (cases "length p = length n")
  case False
  then show ?thesis by auto
next
  case True
  then have "p = n \<longleftrightarrow> (\<forall>j<length p. p ! j = n ! j)"
    by (auto intro: nth_equalityI)
  with True show ?thesis
    by (simp add: list_ex_iff Bex_def)
qed

lemma take_differ_iff:
  assumes "length xs = length ys" and "k \<le> length xs"
  shows "take k xs \<noteq> take k ys \<longleftrightarrow> (\<exists>i<k. xs ! i \<noteq> ys ! i)"
proof
  assume "take k xs \<noteq> take k ys"
  show "\<exists>i<k. xs ! i \<noteq> ys ! i"
  proof (rule ccontr)
    assume "\<not> (\<exists>i<k. xs ! i \<noteq> ys ! i)"
    then have "take k xs = take k ys"
      using assms by (intro nth_take_lemma) auto
    with \<open>take k xs \<noteq> take k ys\<close> show False by simp
  qed
next
  assume "\<exists>i<k. xs ! i \<noteq> ys ! i"
  then obtain i where i: "i < k" "xs ! i \<noteq> ys ! i" by blast
  show "take k xs \<noteq> take k ys"
  proof
    assume "take k xs = take k ys"
    then have "take k xs ! i = take k ys ! i" by simp
    with i show False by simp
  qed
qed

lemma isNewComponents_iff:
  "isNewComponents prev nxt bias \<longleftrightarrow>
     length prev \<noteq> length nxt
     \<or> take (length prev - bias) prev \<noteq> take (length prev - bias) nxt"
proof (cases "length prev = length nxt")
  case False
  then show ?thesis by (simp add: isNewComponents_def)
next
  case True
  have "take (length prev - bias) prev \<noteq> take (length prev - bias) nxt
          \<longleftrightarrow> (\<exists>i<length prev - bias. prev ! i \<noteq> nxt ! i)"
    by (rule take_differ_iff [OF True]) simp
  moreover have "isNewComponents prev nxt bias
          \<longleftrightarrow> (\<exists>i<length prev - bias. prev ! i \<noteq> nxt ! i)"
    using True by (simp add: isNewComponents_def bytes_differ_iff list_ex_iff Bex_def)
  ultimately show ?thesis using True by simp
qed

lemma isNewComponents_same_group:
  assumes "\<not> isNewComponents prev comps bias"
  shows "isNewComponents comps nxt bias = isNewComponents prev nxt bias"
  using assms by (auto simp add: isNewComponents_iff)

lemma extractComponents_Inr:
  "extractComponents m column insp bias = Inr comps \<longleftrightarrow>
     nameComponents m column = Some comps \<and> length comps = length (components m) + bias"
  by (auto simp add: extractComponents_def split: option.splits)

lemma unmapLoop_same_group:
  assumes "\<not> isNewComponents prev comps 1"
  shows "unmapLoop C m p insp True comps v s = unmapLoop C m p insp True prev v s"
proof -
  have "\<And>x. isNewComponents comps x (Suc 0) = isNewComponents prev x (Suc 0)"
    using isNewComponents_same_group [of prev comps 1] assms by simp
  then show ?thesis
    by (subst (1 2) unmapLoop.simps) (simp split: prod.splits sum.splits)
qed

section \<open>Evaluating the model on the scenario\<close>

lemma length_utf8: "length (utf8 s) = length s"
  by (simp add: utf8_def)

lemma demo_utf8_roundtrip:
  "Marshal demoCodec (VString s) UTF8Type = Inr (utf8 s)"
  "Unmarshal demoCodec (utf8 s) UTF8Type (VString t) = Inr (VString s)"
  by (simp_all add: demoCodec_def demoMarshal_def demoUnmarshal_def utf8_def
        charOfByte_byteOfChar comp_def)

lemma userType_simps:
  "rtype (userType tags) = ''User''"
  "globalTags (userType tags) = tags"
  "orderedFields (userType tags) = userFields"
  "goFields (userType tags) = map_of (map (\<lambda>f. (name f, f)) userFields)"
  "cassandraFields (userType tags) = map_of (map (\<lambda>f. (cassandraName f, f)) userFields)"
  by (simp_all add: userType_def inspectionOf_def)

lemma userMapping_simps:
  "si userMapping = userType userTags"
  "cf userMapping = ''users''"
  "key userMapping = ''Id''"
  "components userMapping = [''Kind'']"
  "componentsMap userMapping = [''Kind'' \<mapsto> True]"
  by (simp_all add: userMapping_def newSparseMapping_def)

lemma NextColumn_listProvider:
  "NextColumn listProvider s =
     (if curPos s < length (curColumns s)
      then (Inr (curColumns s ! curPos s), s\<lparr> curPos := curPos s + 1 \<rparr>)
      else (Inl (curEnd s), s))"
  "provKey listProvider s = (Inr (curKey s), s)"
  "Rewind listProvider s = s\<lparr> curPos := curPos s - 1 \<rparr>"
  by (simp_all add: listProvider_def)

lemma startUnmap_user:
  "startUnmap demoCodec userMapping (StructPtr (userType userTags) freshUser) listProvider
      \<lparr> curKey = utf8 ''u1'', curColumns = cs, curPos = 0, curEnd = e \<rparr>
     = (Inr (freshUser(''Id'' := VString ''u1''), userType userTags),
        \<lparr> curKey = utf8 ''u1'', curColumns = cs, curPos = 0, curEnd = e \<rparr>)"
  by (simp add: startUnmap_def userMapping_simps userType_simps userFields_def
        NextColumn_listProvider unmarshalValue_def demo_utf8_roundtrip freshUser_def)

lemma nameComponents_user:
  assumes "length a < 65536" and "length b < 65536"
  shows "nameComponents userMapping (mkColumn (pack [utf8 a, utf8 b]) x) = Some [utf8 a, utf8 b]"
  using assms
  by (simp add: nameComponents_def userMapping_simps mkColumn_def unpackComposite_pack length_utf8)

section \<open>Shape mismatch and unknown columns\<close>

text \<open>
  C6: whenever the components found in a column name are not as many as the component
  fields plus the bias, \<open>extractComponents\<close> answers the shape-mismatch error, for any
  bias; so does the sparse loop at any of its turns (bias 1), the sparse \<open>Unmap\<close> on its
  first column, and the compact \<open>Unmap\<close> (bias 0). The struct is left as it was before
  the column. A count that is off by one is one such case.
\<close>

theorem C6_component_count_mismatch:
  "(nameComponents m column = Some comps \<and> length comps \<noteq> length (components m) + bias
      \<longrightarrow> extractComponents m column insp bias = Inl (ComponentCountMismatch (rtype insp)))
   \<and> (nameComponents m column = Some comps \<and> length comps \<noteq> length (components m) + 1
        \<and> NextColumn p s = (Inr column, s')
      \<longrightarrow> unmapLoop C m p insp compositeFieldsAreSet previousComponents v s
            = Some (Some (ComponentCountMismatch (rtype insp)), v, s'))
   \<and> (nameComponents m column = Some comps \<and> length comps \<noteq> length (components m) + 1
        \<and> startUnmap C m destination p s = (Inr (v, insp), s0)
        \<and> NextColumn p s0 = (Inr column, s1)
      \<longrightarrow> sparseMapping_Unmap C m destination p s
            = Some (Some (ComponentCountMismatch (rtype insp)), StructPtr insp v, s1))
   \<and> (nameComponents mc column = Some comps \<and> length comps \<noteq> length (components mc)
        \<and> startUnmap C mc destination p s = (Inr (v, insp), s0)
        \<and> NextColumn p s0 = (Inr column, s1)
      \<longrightarrow> compactMapping_Unmap C mc destination p s
            = (Some (ComponentCountMismatch (rtype insp)), StructPtr insp v, s1))"
proof (intro conjI impI)
  assume "nameComponents m column = Some comps \<and> length comps \<noteq> length (components m) + bias"
  then show "extractComponents m column insp bias = Inl (ComponentCountMismatch (rtype insp))"
    by (simp add: extractComponents_def)
next
  assume "nameComponents m column = Some comps \<and> length comps \<noteq> length (components m) + 1
        \<and> NextColumn p s = (Inr column, s')"
  then show "unmapLoop C m p insp compositeFieldsAreSet previousComponents v s
            = Some (Some (ComponentCountMismatch (rtype insp)), v, s')"
    by (subst unmapLoop.simps) (simp add: extractComponents_def)
next
  assume "nameComponents m column = Some comps \<and> length comps \<noteq> length (components m) + 1
        \<and> startUnmap C m destination p s = (Inr (v, insp), s0)
        \<and> NextColumn p s0 = (Inr column, s1)"
  then show "sparseMapping_Unmap C m destination p s
            = Some (Some (ComponentCountMismatch (rtype insp)), StructPtr insp v, s1)"
    by (simp add: sparseMapping_Unmap_def) (subst unmapLoop.simps, simp add: extractComponents_def)
next
  assume "nameComponents mc column = Some comps \<and> length comps \<noteq> length (components mc)
        \<and> startUnmap C mc destination p s = (Inr (v, insp), s0)
        \<and> NextColumn p s0 = (Inr column, s1)"
  then show "compactMapping_Unmap C mc destination p s
            = (Some (ComponentCountMismatch (rtype insp)), StructPtr insp v, s1)"
    by (simp add: compactMapping_Unmap_def extractComponents_def)
qed

theorem C6_component_count_mismatch_witness:
  "map_option fst
     (sparseMapping_Unmap demoCodec userMapping (StructPtr (userType userTags) freshUser) listProvider
        \<lparr> curKey = utf8 ''u1'',
          curColumns = [mkColumn (pack [utf8 ''profile'', utf8 ''x'', utf8 ''Name'']) (utf8 ''Alice'')],
          curPos = 0, curEnd = EndBeforeLimit \<rparr>)
     = Some (Some (ComponentCountMismatch ''User''))"
proof -
  let ?col = "mkColumn (pack [utf8 ''profile'', utf8 ''x'', utf8 ''Name'']) (utf8 ''Alice'')"
  let ?s = "\<lparr> curKey = utf8 ''u1'', curColumns = [?col], curPos = 0, curEnd = EndBeforeLimit \<rparr>"
  have comps: "nameComponents userMapping ?col = Some [utf8 ''profile'', utf8 ''x'', utf8 ''Name'']"
    by (simp add: nameComponents_def userMapping_simps mkColumn_def unpackComposite_pack length_utf8)
  have nxt: "NextColumn listProvider ?s = (Inr ?col, ?s\<lparr> curPos := 1 \<rparr>)"
    by (simp add: NextColumn_listProvider)
  from C6_component_count_mismatch
         [where m = userMapping and column = ?col
            and comps = "[utf8 ''profile'', utf8 ''x'', utf8 ''Name'']"
            and C = demoCodec and destination = "StructPtr (userType userTags) freshUser"
            and p = listProvider and s = ?s and ?s0.0 = ?s and ?s1.0 = "?s\<lparr> curPos := 1 \<rparr>"
            and v = "freshUser(''Id'' := VString ''u1'')" and insp = "userType userTags",
          THEN conjunct2, THEN conjunct2, THEN conjunct1]
       comps nxt startUnmap_user [of "[?col]" EndBeforeLimit]
  show ?thesis
    by (simp add: userMapping_simps userType_simps)
qed


text \<open>
  C7: a column of the right shape whose trailing component unmarshals to a name that is
  no declared field does not end the call and does not touch the struct. Inside a
  group the loop goes on from the provider's next state with the same struct and the
  same group; as the first column of the call it only sets the component fields and
  the group, as any first column does.
\<close>

theorem C7_unknown_column_skipped:
  assumes "NextColumn p s = (Inr column, s')"
    and "extractComponents m column insp 1 = Inr comps"
    and "Unmarshal C (last comps) UTF8Type (VString []) = Inr (VString n)"
    and "cassandraFields insp n = None"
  shows "(\<not> isNewComponents previousComponents comps 1
            \<longrightarrow> unmapLoop C m p insp True previousComponents v s
                  = unmapLoop C m p insp True previousComponents v s')
       \<and> (unmapComponents C m insp comps v = (None, v1)
            \<longrightarrow> unmapLoop C m p insp False previousComponents v s
                  = unmapLoop C m p insp True comps v1 s')"
proof -
  from assms(2) have ne: "comps \<noteq> []"
    by (auto simp add: extractComponents_Inr)
  then have "comps ! (length comps - 1) = last comps"
    by (simp add: last_conv_nth)
  with assms ne have skip: "\<And>w. unmapField C insp column comps w = (None, w)"
    by (simp add: unmapField_def)
  show ?thesis
  proof (intro conjI impI)
    assume same: "\<not> isNewComponents previousComponents comps 1"
    have "unmapLoop C m p insp True previousComponents v s = unmapLoop C m p insp True comps v s'"
      using assms(1,2) same skip by (subst unmapLoop.simps) simp
    also have "\<dots> = unmapLoop C m p insp True previousComponents v s'"
      by (rule unmapLoop_same_group [OF same])
    finally show "unmapLoop C m p insp True previousComponents v s
                  = unmapLoop C m p insp True previousComponents v s'" .
  next
    assume "unmapComponents C m insp comps v = (None, v1)"
    then show "unmapLoop C m p insp False previousComponents v s
                  = unmapLoop C m p insp True comps v1 s'"
      using assms(1,2) skip by (subst unmapLoop.simps) simp
  qed
qed


theorem C7_unknown_column_skipped_witness:
  "unmapLoop demoCodec userMapping listProvider (userType userTags) True
       [utf8 ''profile'', utf8 ''Name''] alice
       \<lparr> curKey = utf8 ''u1'',
         curColumns = [mkColumn (pack [utf8 ''profile'', utf8 ''Nick'']) (utf8 ''Al'')],
         curPos = 0, curEnd = EndBeforeLimit \<rparr>
     = Some (None, alice,
         \<lparr> curKey = utf8 ''u1'',
           curColumns = [mkColumn (pack [utf8 ''profile'', utf8 ''Nick'']) (utf8 ''Al'')],
           curPos = 1, curEnd = EndBeforeLimit \<rparr>)"
proof -
  let ?T = "userType userTags"
  let ?u = "mkColumn (pack [utf8 ''profile'', utf8 ''Nick'']) (utf8 ''Al'')"
  let ?comps = "[utf8 ''profile'', utf8 ''Nick'']"
  let ?prev = "[utf8 ''profile'', utf8 ''Name'']"
  let ?s = "\<lparr> curKey = utf8 ''u1'', curColumns = [?u], curPos = 0, curEnd = EndBeforeLimit \<rparr>"
  let ?s' = "\<lparr> curKey = utf8 ''u1'', curColumns = [?u], curPos = 1, curEnd = EndBeforeLimit \<rparr>"
  have nxt: "NextColumn listProvider ?s = (Inr ?u, ?s')"
    by (simp add: NextColumn_listProvider)
  have ext: "extractComponents userMapping ?u ?T 1 = Inr ?comps"
    by (simp add: extractComponents_def nameComponents_user userMapping_simps)
  have nm: "Unmarshal demoCodec (last ?comps) UTF8Type (VString []) = Inr (VString ''Nick'')"
    by (simp add: demo_utf8_roundtrip)
  have unknown: "cassandraFields ?T ''Nick'' = None"
    by (simp add: userType_simps userFields_def)
  have same: "\<not> isNewComponents ?prev ?comps 1"
    by (simp add: isNewComponents_iff)
  have "unmapLoop demoCodec userMapping listProvider ?T True ?prev alice ?s
          = unmapLoop demoCodec userMapping listProvider ?T True ?prev alice ?s'"
    using C7_unknown_column_skipped [OF nxt ext nm unknown, THEN conjunct1] same by simp
  also have "\<dots> = Some (None, alice, ?s')"
    by (subst unmapLoop.simps) (simp add: NextColumn_listProvider)
  finally show ?thesis .
qed

section \<open>The sparse loop over a list of columns\<close>

lemma unmapLoop_turn:
  "unmapLoop C m p insp flag prev v s =
     (case NextColumn p s of
        (Inl e, s') \<Rightarrow>
          Some (if e = EndBeforeLimit then (if flag then None else Some Done)
                else if e = EndAtLimit then Some Done else Some e, v, s')
      | (Inr column, s') \<Rightarrow>
          (case unmapTurn C m insp flag prev v column of
             Stop e v' rewound \<Rightarrow> Some (e, v', if rewound then Rewind p s' else s')
           | Continue comps v' \<Rightarrow> unmapLoop C m p insp True comps v' s'))"
  by (subst unmapLoop.simps)
     (simp add: unmapTurn_def fieldTurn_def split: prod.splits sum.splits option.splits)

lemma unmapLoop_list_end:
  assumes "length cs \<le> i"
  shows "unmapLoop C m listProvider insp flag prev v
           \<lparr> curKey = k, curColumns = cs, curPos = i, curEnd = e \<rparr>
         = Some (if e = EndBeforeLimit then (if flag then None else Some Done)
                 else if e = EndAtLimit then Some Done else Some e, v,
                 \<lparr> curKey = k, curColumns = cs, curPos = i, curEnd = e \<rparr>)"
  using assms by (subst unmapLoop_turn) (simp add: NextColumn_listProvider)

lemma unmapLoop_list_step:
  assumes "i < length cs"
  shows "unmapLoop C m listProvider insp flag prev v
           \<lparr> curKey = k, curColumns = cs, curPos = i, curEnd = e \<rparr>
         = (case unmapTurn C m insp flag prev v (cs ! i) of
              Stop er v' rewound \<Rightarrow>
                Some (er, v', \<lparr> curKey = k, curColumns = cs,
                               curPos = (if rewound then i else Suc i), curEnd = e \<rparr>)
            | Continue comps v' \<Rightarrow>
                unmapLoop C m listProvider insp True comps v'
                  \<lparr> curKey = k, curColumns = cs, curPos = Suc i, curEnd = e \<rparr>)"
  using assms
  by (subst unmapLoop_turn) (simp add: NextColumn_listProvider split: turn.splits)

text \<open>A turn on a column of the current group never rewinds and stays in the group.\<close>

lemma unmapTurn_in_group:
  assumes "extractComponents m x insp 1 = Inr comps" and "butlast comps = pfx"
    and "flag \<longrightarrow> length prev = length (components m) + 1 \<and> butlast prev = pfx"
  shows "(\<exists>er v'. unmapTurn C m insp flag prev v x = Stop (Some er) v' False)
       \<or> (\<exists>v'. unmapTurn C m insp flag prev v x = Continue comps v')"
proof -
  from assms(1) have len: "length comps = length (components m) + 1"
    by (simp add: extractComponents_Inr)
  have "\<not> isNewComponents prev comps 1" if flag
    using that assms(2,3) len by (auto simp add: isNewComponents_iff butlast_conv_take)
  then show ?thesis
    using assms(1)
    by (auto simp add: unmapTurn_def fieldTurn_def split: prod.splits option.splits)
qed

lemma unmapTurn_next_group:
  assumes "extractComponents m c insp 1 = Inr comps'" and "butlast comps' \<noteq> pfx"
    and "length prev = length (components m) + 1" and "butlast prev = pfx"
  shows "unmapTurn C m insp True prev v c = Stop None v True"
proof -
  from assms(1) have len: "length comps' = length (components m) + 1"
    by (simp add: extractComponents_Inr)
  have "isNewComponents prev comps' 1"
    using assms(2,3,4) len by (auto simp add: isNewComponents_iff butlast_conv_take)
  then show ?thesis
    using assms(1) by (simp add: unmapTurn_def)
qed

lemma unmapLoop_group_then_next:
  assumes group: "\<forall>x\<in>set g. \<exists>comps. extractComponents m x insp 1 = Inr comps \<and> butlast comps = pfx"
    and c: "extractComponents m c insp 1 = Inr comps'" "butlast comps' \<noteq> pfx"
    and prev: "flag \<longrightarrow> length prev = length (components m) + 1 \<and> butlast prev = pfx"
    and i: "i \<le> length g"
    and alone: "unmapLoop C m listProvider insp flag prev v
                  \<lparr> curKey = k, curColumns = g, curPos = i, curEnd = EndBeforeLimit \<rparr>
                = Some (None, v', t)"
  shows "unmapLoop C m listProvider insp flag prev v
           \<lparr> curKey = k, curColumns = g @ c # rest, curPos = i, curEnd = e \<rparr>
         = Some (None, v', \<lparr> curKey = k, curColumns = g @ c # rest, curPos = length g, curEnd = e \<rparr>)"
  using prev i alone
proof (induction "length g - i" arbitrary: i flag prev v)
  case 0
  then have i: "i = length g" by simp
  from "0.prems"(3) have fv: "flag \<and> v' = v"
    by (simp add: i unmapLoop_list_end split: if_splits)
  with "0.prems"(1) have "unmapTurn C m insp True prev v c = Stop None v True"
    using unmapTurn_next_group [OF c] by simp
  then show ?case
    using fv by (simp add: i unmapLoop_list_step)
next
  case (Suc n)
  then have i: "i < length g" by simp
  then have x: "g ! i \<in> set g" by simp
  with group obtain comps where comps: "extractComponents m (g ! i) insp 1 = Inr comps"
      "butlast comps = pfx"
    by blast
  have nth: "(g @ c # rest) ! i = g ! i"
    using i by (simp add: nth_append)
  from unmapTurn_in_group [OF comps Suc.prems(1), of C v]
  consider (stop) er v1 where "unmapTurn C m insp flag prev v (g ! i) = Stop (Some er) v1 False"
    | (continue) v1 where "unmapTurn C m insp flag prev v (g ! i) = Continue comps v1"
    by blast
  then show ?case
  proof cases
    case stop
    with Suc.prems(3) i show ?thesis
      by (simp add: unmapLoop_list_step)
  next
    case continue
    from comps(1) have len: "length comps = length (components m) + 1"
      by (simp add: extractComponents_Inr)
    from continue Suc.prems(3) i
    have alone': "unmapLoop C m listProvider insp True comps v1
                  \<lparr> curKey = k, curColumns = g, curPos = Suc i, curEnd = EndBeforeLimit \<rparr>
                = Some (None, v', t)"
      by (simp add: unmapLoop_list_step)
    have "unmapLoop C m listProvider insp True comps v1
           \<lparr> curKey = k, curColumns = g @ c # rest, curPos = Suc i, curEnd = e \<rparr>
         = Some (None, v', \<lparr> curKey = k, curColumns = g @ c # rest, curPos = length g, curEnd = e \<rparr>)"
      using Suc.hyps(2) i len comps(2) alone'
      by (intro Suc.hyps(1)) auto
    with continue i nth show ?thesis
      by (simp add: unmapLoop_list_step)
  qed
qed

text \<open>Columns that the cursor has left behind do not matter.\<close>

lemma unmapLoop_list_shift:
  "unmapLoop C m listProvider insp flag prev v
       \<lparr> curKey = k, curColumns = pre @ xs, curPos = length pre + i, curEnd = e \<rparr>
     = map_option (\<lambda>(er, v', s). (er, v', s\<lparr> curColumns := pre @ xs, curPos := length pre + curPos s \<rparr>))
         (unmapLoop C m listProvider insp flag prev v
            \<lparr> curKey = k, curColumns = xs, curPos = i, curEnd = e \<rparr>)"
proof (induction "length xs - i" arbitrary: i flag prev v)
  case 0
  then show ?case
    by (simp add: unmapLoop_list_end)
next
  case (Suc n)
  then have i: "i < length xs" by simp
  have nth: "(pre @ xs) ! (length pre + i) = xs ! i"
    by simp
  show ?case
  proof (cases "unmapTurn C m insp flag prev v (xs ! i)")
    case (Stop er v1 rewound)
    with i nth show ?thesis
      by (simp add: unmapLoop_list_step)
  next
    case (Continue comps v1)
    have "unmapLoop C m listProvider insp True comps v1
         \<lparr> curKey = k, curColumns = pre @ xs, curPos = length pre + Suc i, curEnd = e \<rparr>
       = map_option (\<lambda>(er, v', s). (er, v', s\<lparr> curColumns := pre @ xs, curPos := length pre + curPos s \<rparr>))
           (unmapLoop C m listProvider insp True comps v1
              \<lparr> curKey = k, curColumns = xs, curPos = Suc i, curEnd = e \<rparr>)"
      using Suc.hyps(2) by (intro Suc.hyps(1)) simp
    with Continue i nth show ?thesis
      by (simp add: unmapLoop_list_step)
  qed
qed

lemma startUnmap_listProvider:
  "startUnmap C m destination listProvider s
     = (fst (startUnmap C m destination listProvider
               \<lparr> curKey = curKey s, curColumns = [], curPos = 0, curEnd = Done \<rparr>), s)"
  by (simp add: startUnmap_def NextColumn_listProvider
        split: sum.splits option.splits prod.splits)

lemma extractComponents_user:
  assumes "length a < 65536" and "length b < 65536"
  shows "extractComponents userMapping (mkColumn (pack [utf8 a, utf8 b]) x) insp 1
           = Inr [utf8 a, utf8 b]"
  using assms by (simp add: extractComponents_def nameComponents_user userMapping_simps)

lemma unmapTurn_user_first:
  "unmapTurn demoCodec userMapping (userType userTags) False prev
       (freshUser(''Id'' := VString ''u1''))
       (mkColumn (pack [utf8 ''profile'', utf8 ''Name'']) (utf8 ''Alice''))
     = Continue [utf8 ''profile'', utf8 ''Name'']
         (freshUser(''Id'' := VString ''u1'', ''Kind'' := VString ''profile'',
                    ''Name'' := VString ''Alice''))"
proof -
  let ?T = "userType userTags"
  let ?col = "mkColumn (pack [utf8 ''profile'', utf8 ''Name'']) (utf8 ''Alice'')"
  let ?comps = "[utf8 ''profile'', utf8 ''Name'']"
  let ?v = "freshUser(''Id'' := VString ''u1'')"
  let ?v1 = "freshUser(''Id'' := VString ''u1'', ''Kind'' := VString ''profile'')"
  let ?v2 = "freshUser(''Id'' := VString ''u1'', ''Kind'' := VString ''profile'',
                      ''Name'' := VString ''Alice'')"
  have ext: "extractComponents userMapping ?col ?T 1 = Inr ?comps"
    by (rule extractComponents_user) simp_all
  have uc: "unmapComponents demoCodec userMapping ?T ?comps ?v = (None, ?v1)"
    by (simp add: unmapComponents_def userMapping_simps userType_simps userFields_def
          unmarshalValue_def demo_utf8_roundtrip freshUser_def)
  have uf: "unmapField demoCodec ?T ?col ?comps ?v1 = (None, ?v2)"
    by (simp add: unmapField_def userType_simps userFields_def unmarshalValue_def
          demo_utf8_roundtrip freshUser_def mkColumn_def)
  show ?thesis
    unfolding unmapTurn_def fieldTurn_def by (simp add: ext uc uf del: One_nat_def)
qed

lemma Unmap_user_single_column:
  "sparseMapping_Unmap demoCodec userMapping (StructPtr (userType userTags) freshUser) listProvider
        \<lparr> curKey = utf8 ''u1'',
          curColumns = [mkColumn (pack [utf8 ''profile'', utf8 ''Name'']) (utf8 ''Alice'')],
          curPos = 0, curEnd = EndBeforeLimit \<rparr>
     = Some (None,
         StructPtr (userType userTags)
           (freshUser(''Id'' := VString ''u1'', ''Kind'' := VString ''profile'',
                      ''Name'' := VString ''Alice'')),
         \<lparr> curKey = utf8 ''u1'',
           curColumns = [mkColumn (pack [utf8 ''profile'', utf8 ''Name'']) (utf8 ''Alice'')],
           curPos = 1, curEnd = EndBeforeLimit \<rparr>)"
  by (simp add: sparseMapping_Unmap_def startUnmap_user unmapLoop_list_step unmapTurn_user_first
        unmapLoop_list_end)

section \<open>The boundary between two groups\<close>

text \<open>
  C4: let the columns \<open>g\<close> all have the component prefix \<open>pfx\<close> (the components
  without the trailing field name), let \<open>c\<close> be a column of the right shape whose
  prefix differs, and let \<open>Unmap\<close> decode \<open>g\<close> alone with success. Then on a provider
  over \<open>g\<close>, \<open>c\<close> and any further columns, whatever its end signal, the sparse
  \<open>Unmap\<close> returns with success and the same record, and leaves the cursor on \<open>c\<close>:
  it has read \<open>c\<close> and rewound one step. The next \<open>NextColumn\<close> hands out \<open>c\<close>, and
  a second \<open>Unmap\<close> on this provider does what it does on a provider over \<open>c\<close> and
  the further columns, up to the place of the cursor.
\<close>

theorem C4_stops_at_next_group:
  assumes group: "\<forall>x\<in>set g. \<exists>comps. nameComponents m x = Some comps
                    \<and> length comps = length (components m) + 1 \<and> butlast comps = pfx"
    and other: "nameComponents m c = Some comps'" "length comps' = length (components m) + 1"
               "butlast comps' \<noteq> pfx"
    and alone: "sparseMapping_Unmap C m destination listProvider
                  \<lparr> curKey = k, curColumns = g, curPos = 0, curEnd = EndBeforeLimit \<rparr>
                = Some (None, decoded, t)"
  shows "sparseMapping_Unmap C m destination listProvider
           \<lparr> curKey = k, curColumns = g @ c # rest, curPos = 0, curEnd = e \<rparr>
         = Some (None, decoded,
             \<lparr> curKey = k, curColumns = g @ c # rest, curPos = length g, curEnd = e \<rparr>)
       \<and> NextColumn listProvider
             \<lparr> curKey = k, curColumns = g @ c # rest, curPos = length g, curEnd = e \<rparr>
         = (Inr c, \<lparr> curKey = k, curColumns = g @ c # rest, curPos = length g + 1, curEnd = e \<rparr>)
       \<and> sparseMapping_Unmap C m destination' listProvider
             \<lparr> curKey = k, curColumns = g @ c # rest, curPos = length g, curEnd = e \<rparr>
         = map_option (\<lambda>(er, d, s). (er, d, s\<lparr> curColumns := g @ c # rest,
                                                  curPos := length g + curPos s \<rparr>))
             (sparseMapping_Unmap C m destination' listProvider
                \<lparr> curKey = k, curColumns = c # rest, curPos = 0, curEnd = e \<rparr>)"
proof (intro conjI)
  let ?alone = "\<lparr> curKey = k, curColumns = g, curPos = 0, curEnd = EndBeforeLimit \<rparr>"
  let ?both = "\<lparr> curKey = k, curColumns = g @ c # rest, curPos = 0, curEnd = e \<rparr>"
  obtain r where r: "startUnmap C m destination listProvider ?alone = (r, ?alone)"
      "startUnmap C m destination listProvider ?both = (r, ?both)"
    using startUnmap_listProvider [of C m destination ?alone]
          startUnmap_listProvider [of C m destination ?both]
    by simp
  from alone r(1) obtain v insp where r': "r = Inr (v, insp)"
    by (cases r) (auto simp add: sparseMapping_Unmap_def)
  from alone r(1) r' obtain v' where
    loop: "unmapLoop C m listProvider insp False [] v ?alone = Some (None, v', t)"
    and decoded: "decoded = StructPtr insp v'"
    by (auto simp add: sparseMapping_Unmap_def)
  have group': "\<forall>x\<in>set g. \<exists>comps. extractComponents m x insp 1 = Inr comps \<and> butlast comps = pfx"
    using group by (simp add: extractComponents_Inr)
  have c': "extractComponents m c insp 1 = Inr comps'"
    using other by (simp add: extractComponents_Inr)
  have "unmapLoop C m listProvider insp False [] v ?both
          = Some (None, v', \<lparr> curKey = k, curColumns = g @ c # rest, curPos = length g, curEnd = e \<rparr>)"
    by (rule unmapLoop_group_then_next [OF group' c' other(3) _ _ loop]) simp_all
  with r(2) r' decoded
  show "sparseMapping_Unmap C m destination listProvider ?both
         = Some (None, decoded,
             \<lparr> curKey = k, curColumns = g @ c # rest, curPos = length g, curEnd = e \<rparr>)"
    by (simp add: sparseMapping_Unmap_def)
next
  show "NextColumn listProvider
             \<lparr> curKey = k, curColumns = g @ c # rest, curPos = length g, curEnd = e \<rparr>
         = (Inr c, \<lparr> curKey = k, curColumns = g @ c # rest, curPos = length g + 1, curEnd = e \<rparr>)"
    by (simp add: NextColumn_listProvider)
next
  let ?here = "\<lparr> curKey = k, curColumns = g @ c # rest, curPos = length g, curEnd = e \<rparr>"
  let ?fresh = "\<lparr> curKey = k, curColumns = c # rest, curPos = 0, curEnd = e \<rparr>"
  obtain r where r: "startUnmap C m destination' listProvider ?here = (r, ?here)"
      "startUnmap C m destination' listProvider ?fresh = (r, ?fresh)"
    using startUnmap_listProvider [of C m destination' ?here]
          startUnmap_listProvider [of C m destination' ?fresh]
    by simp
  show "sparseMapping_Unmap C m destination' listProvider ?here
         = map_option (\<lambda>(er, d, s). (er, d, s\<lparr> curColumns := g @ c # rest,
                                                  curPos := length g + curPos s \<rparr>))
             (sparseMapping_Unmap C m destination' listProvider ?fresh)"
  proof (cases r)
    case (Inl er)
    with r show ?thesis
      by (simp add: sparseMapping_Unmap_def)
  next
    case (Inr vi)
    obtain v insp where vi: "vi = (v, insp)" by (cases vi)
    from unmapLoop_list_shift [of C m insp False "[]" v k g "c # rest" 0 e] r Inr vi
    show ?thesis
      by (simp add: sparseMapping_Unmap_def option.map_comp comp_def case_prod_unfold)
  qed
qed

theorem C4_stops_at_next_group_witness:
  "sparseMapping_Unmap demoCodec userMapping (StructPtr (userType userTags) freshUser) listProvider
        \<lparr> curKey = utf8 ''u1'',
          curColumns = [mkColumn (pack [utf8 ''profile'', utf8 ''Name'']) (utf8 ''Alice''),
                        mkColumn (pack [utf8 ''settings'', utf8 ''Name'']) (utf8 ''Bob'')],
          curPos = 0, curEnd = EndAtLimit \<rparr>
     = Some (None,
         StructPtr (userType userTags)
           (freshUser(''Id'' := VString ''u1'', ''Kind'' := VString ''profile'',
                      ''Name'' := VString ''Alice'')),
         \<lparr> curKey = utf8 ''u1'',
           curColumns = [mkColumn (pack [utf8 ''profile'', utf8 ''Name'']) (utf8 ''Alice''),
                         mkColumn (pack [utf8 ''settings'', utf8 ''Name'']) (utf8 ''Bob'')],
           curPos = 1, curEnd = EndAtLimit \<rparr>)"
proof -
  let ?a = "mkColumn (pack [utf8 ''profile'', utf8 ''Name'']) (utf8 ''Alice'')"
  let ?b = "mkColumn (pack [utf8 ''settings'', utf8 ''Name'']) (utf8 ''Bob'')"
  have differ: "utf8 ''settings'' \<noteq> utf8 ''profile''"
    by (simp add: utf8_def)
  have group: "\<forall>x\<in>set [?a]. \<exists>comps. nameComponents userMapping x = Some comps
                    \<and> length comps = length (components userMapping) + 1
                    \<and> butlast comps = [utf8 ''profile'']"
    by (simp add: nameComponents_user userMapping_simps)
  have other: "nameComponents userMapping ?b = Some [utf8 ''settings'', utf8 ''Name'']"
      "length [utf8 ''settings'', utf8 ''Name''] = length (components userMapping) + 1"
      "butlast [utf8 ''settings'', utf8 ''Name''] \<noteq> [utf8 ''profile'']"
    using differ by (simp_all add: nameComponents_user userMapping_simps)
  from C4_stops_at_next_group [OF group other Unmap_user_single_column, of "[]" EndAtLimit,
         THEN conjunct1]
  show ?thesis by simp
qed

section \<open>Round trips\<close>

subsection \<open>What consistency of the registry gives\<close>

lemma map_of_key_field:
  assumes "distinct (map g fs)" and "f \<in> set fs"
  shows "map_of (map (\<lambda>f. (g f, f)) fs) (g f) = Some f"
  using assms by (induction fs) (auto simp add: rev_image_eqI)

lemma map_of_key_field_Some:
  assumes "map_of (map (\<lambda>f. (g f, f)) fs) n = Some f"
  shows "f \<in> set fs \<and> g f = n"
  using assms by (induction fs) (auto split: if_splits)

lemma goFields_consistent:
  assumes "registryConsistent insp"
  shows "goFields insp n = Some f \<longleftrightarrow> f \<in> set (orderedFields insp) \<and> name f = n"
proof -
  from assms have g: "goFields insp = map_of (map (\<lambda>f. (name f, f)) (orderedFields insp))"
    and dist: "distinct (map name (orderedFields insp))"
    by (simp_all add: registryConsistent_def)
  show ?thesis
    using map_of_key_field [OF dist] map_of_key_field_Some [of name "orderedFields insp" n f]
    by (auto simp add: g)
qed

lemma cassandraFields_consistent:
  assumes "registryConsistent insp"
  shows "cassandraFields insp n = Some f \<longleftrightarrow> f \<in> set (orderedFields insp) \<and> cassandraName f = n"
proof -
  from assms have g: "cassandraFields insp
                        = map_of (map (\<lambda>f. (cassandraName f, f)) (orderedFields insp))"
    and dist: "distinct (map cassandraName (orderedFields insp))"
    by (simp_all add: registryConsistent_def)
  show ?thesis
    using map_of_key_field [OF dist]
          map_of_key_field_Some [of cassandraName "orderedFields insp" n f]
    by (auto simp add: g)
qed

subsection \<open>Decoding into a partly decoded destination\<close>

lemma mixed_update: "(mixed S r d)(n := r n) = mixed (insert n S) r d"
  by (rule ext) (simp add: mixed_def)

lemma mixed_all:
  assumes "\<forall>n. n \<notin> S \<longrightarrow> d n = r n"
  shows "mixed S r d = r"
  using assms by (intro ext) (simp add: mixed_def)

lemma marshalValue_Inr:
  "marshalValue C f v = Inr b \<longleftrightarrow> Marshal C (v (name f)) (cassandraType f) = Inr b"
  by (simp add: marshalValue_def split: sum.splits)

lemma marshalName_Inr:
  "marshalName C f = Inr b \<longleftrightarrow> Marshal C (VString (cassandraName f)) UTF8Type = Inr b"
  by (simp add: marshalName_def split: sum.splits)

lemma unmarshalValue_mixed:
  assumes "marshalValue C f r = Inr b" and "valueRoundTrips C r d f"
  shows "unmarshalValue C f b (mixed S r d) = (None, mixed (insert (name f) S) r d)"
proof -
  from assms have "Unmarshal C b (cassandraType f) (d (name f)) = Inr (r (name f))"
      and "Unmarshal C b (cassandraType f) (r (name f)) = Inr (r (name f))"
    by (simp_all add: marshalValue_Inr valueRoundTrips_def)
  then have "Unmarshal C b (cassandraType f) (mixed S r d (name f)) = Inr (r (name f))"
    by (simp add: mixed_def)
  then show ?thesis
    by (simp add: unmarshalValue_def mixed_update)
qed

text \<open>
  The component fields \<open>cs\<close> are decoded from their marshalled values \<open>bs\<close>, which
  sit in \<open>comps\<close> after \<open>pre\<close>.
\<close>

lemma unmapComponents_from_mixed:
  assumes "list_all2 (\<lambda>c b. \<exists>f. goFields insp c = Some f \<and> name f = c
                          \<and> marshalValue C f r = Inr b \<and> valueRoundTrips C r d f) cs bs"
  shows "unmapComponents_from C insp (pre @ bs @ post) (length pre) cs (mixed S r d)
           = (None, mixed (S \<union> set cs) r d)"
  using assms
proof (induction cs bs arbitrary: pre S rule: list_all2_induct)
  case Nil
  show ?case by simp
next
  case (Cons c cs b bs)
  from Cons.hyps(1) obtain f where f: "goFields insp c = Some f" "name f = c"
      "marshalValue C f r = Inr b" "valueRoundTrips C r d f"
    by blast
  have nth: "(pre @ (b # bs) @ post) ! length pre = b"
    by simp
  have step: "unmarshalValue C f b (mixed S r d) = (None, mixed (insert c S) r d)"
    using unmarshalValue_mixed [OF f(3,4)] f(2) by simp
  have "unmapComponents_from C insp ((pre @ [b]) @ bs @ post) (length (pre @ [b])) cs
          (mixed (insert c S) r d)
        = (None, mixed (insert c S \<union> set cs) r d)"
    by (rule Cons.IH)
  then have rest: "unmapComponents_from C insp (pre @ (b # bs) @ post) (Suc (length pre)) cs
          (mixed (insert c S) r d)
        = (None, mixed (S \<union> set (c # cs)) r d)"
    by simp
  show ?case
    using f(1) nth step rest by simp
qed

subsection \<open>What Map builds\<close>

lemma pack_Cons: "pack (b # bs) = packComposite b eocEquals @ pack bs"
  by (simp add: pack_def)

lemma pack_append: "pack (as @ bs) = pack as @ pack bs"
  by (simp add: pack_def)

lemma pack_eq_Nil: "pack bs = [] \<longleftrightarrow> bs = []"
  by (cases bs) (simp_all add: pack_def packComposite_def PutUint16_def)

lemma startMap_composite_result:
  assumes "startMap_composite C insp v cs acc = Inr composite"
  shows "\<exists>bs. composite = acc @ pack bs
            \<and> list_all2 (\<lambda>c b. \<exists>f. goFields insp c = Some f \<and> marshalValue C f v = Inr b) cs bs"
  using assms
proof (induction cs arbitrary: acc)
  case Nil
  then show ?case by (simp add: pack_def)
next
  case (Cons c cs)
  from Cons.prems obtain f b where f: "goFields insp c = Some f" "marshalValue C f v = Inr b"
    and rest: "startMap_composite C insp v cs (acc @ packComposite b eocEquals) = Inr composite"
    by (auto split: option.splits sum.splits)
  from Cons.IH [OF rest] obtain bs where bs: "composite = (acc @ packComposite b eocEquals) @ pack bs"
      "list_all2 (\<lambda>c b. \<exists>f. goFields insp c = Some f \<and> marshalValue C f v = Inr b) cs bs"
    by blast
  have "composite = acc @ pack (b # bs)"
    using bs(1) by (simp add: pack_Cons)
  moreover have "list_all2 (\<lambda>c b. \<exists>f. goFields insp c = Some f \<and> marshalValue C f v = Inr b)
                   (c # cs) (b # bs)"
    using f bs(2) by auto
  ultimately show ?case by blast
qed

lemma Map_columns_result:
  assumes "Map_columns C m v composite fs acc = Inr cols"
  shows "\<exists>new. cols = acc @ new
            \<and> list_all2 (isColumnOf C v composite)
                 (filter (\<lambda>f. name f \<noteq> key m \<and> componentsMap m (name f) = None) fs) new"
  using assms
proof (induction fs arbitrary: acc)
  case Nil
  then show ?case by simp
next
  case (Cons f fs)
  show ?case
  proof (cases "name f \<noteq> key m \<and> componentsMap m (name f) = None")
    case False
    with Cons.prems have "Map_columns C m v composite fs acc = Inr cols"
      by (auto split: if_splits)
    from Cons.IH [OF this] False show ?thesis by auto
  next
    case True
    with Cons.prems obtain columnName columnValue where
      mv: "marshalName C f = Inr columnName" "marshalValue C f v = Inr columnValue"
      and rest: "Map_columns C m v composite fs
                   (acc @ [\<lparr> Name = (if length composite > 0
                                        then composite @ packComposite columnName eocEquals
                                        else columnName),
                              Value = columnValue, Ttl = 0, Timestamp = 0 \<rparr>]) = Inr cols"
      by (auto simp add: Let_def split: sum.splits)
    let ?col = "\<lparr> Name = (if length composite > 0
                                        then composite @ packComposite columnName eocEquals
                                        else columnName),
                              Value = columnValue, Ttl = 0, Timestamp = 0 \<rparr>"
    from Cons.IH [OF rest] obtain new where new: "cols = (acc @ [?col]) @ new"
        "list_all2 (isColumnOf C v composite)
           (filter (\<lambda>f. name f \<noteq> key m \<and> componentsMap m (name f) = None) fs) new"
      by blast
    have "isColumnOf C v composite f ?col"
      using mv by (auto simp add: isColumnOf_def)
    with new True show ?thesis
      by (intro exI [of _ "?col # new"]) simp
  qed
qed

subsection \<open>What a constructed mapping knows\<close>

lemma componentsMap_fold:
  "fold (\<lambda>f cm. cm(f \<mapsto> True)) cs M n = (if n \<in> set cs then Some True else M n)"
  by (induction cs arbitrary: M) auto

lemma newSparseMapping_simps:
  "key (newSparseMapping insp cfName k cs) = k"
  "components (newSparseMapping insp cfName k cs) = cs"
  "componentsMap (newSparseMapping insp cfName k cs) n = None \<longleftrightarrow> n \<notin> set cs"
  by (simp_all add: newSparseMapping_def componentsMap_fold)

lemma newCompactMapping_simps:
  "key (newCompactMapping insp cfName k val cs) = k"
  "components (newCompactMapping insp cfName k val cs) = cs"
  "valueField (newCompactMapping insp cfName k val cs) = val"
  by (simp_all add: newCompactMapping_def newSparseMapping_def
        sparseMapping.defs compactMapping.defs)

lemma NewMapping_Sparse:
  assumes "NewMapping (StructPtr insp v) = Inr (Sparse m)"
  shows "goFields insp (key m) \<noteq> None"
    and "\<forall>c\<in>set (components m). goFields insp c \<noteq> None"
    and "componentsMap m n = None \<longleftrightarrow> n \<notin> set (components m)"
  using assms
  by (auto simp add: NewMapping_def Let_def newSparseMapping_simps find_None_iff_set
        split: option.splits if_splits)

lemma NewMapping_Compact:
  assumes "NewMapping (StructPtr insp v) = Inr (Compact m)"
  shows "goFields insp (key m) \<noteq> None"
    and "\<forall>c\<in>set (components m). goFields insp c \<noteq> None"
  using assms
  by (auto simp add: NewMapping_def Let_def newCompactMapping_simps find_None_iff_set
        split: option.splits if_splits)

subsection \<open>One column of Map, decoded\<close>

lemma nameComponents_of_column:
  assumes col: "isColumnOf C r (pack bs) f col"
    and len: "length bs = length (components m)"
    and fit: "components m \<noteq> [] \<longrightarrow>
                (\<forall>b\<in>set bs. length b < 65536)
                \<and> (\<forall>nb. marshalName C f = Inr nb \<longrightarrow> length nb < 65536)"
  shows "\<exists>nb vb. marshalName C f = Inr nb \<and> marshalValue C f r = Inr vb
            \<and> nameComponents m col = Some (bs @ [nb]) \<and> Value col = vb"
proof -
  from col obtain nb vb where nb: "marshalName C f = Inr nb" and vb: "marshalValue C f r = Inr vb"
    and c: "col = \<lparr> Name = (if length (pack bs) > 0 then pack bs @ packComposite nb eocEquals
                               else nb),
                      Value = vb, Ttl = 0, Timestamp = 0 \<rparr>"
    by (auto simp add: isColumnOf_def)
  have "nameComponents m col = Some (bs @ [nb])"
  proof (cases "components m = []")
    case True
    with len have "bs = []" by simp
    with True c show ?thesis
      by (simp add: nameComponents_def pack_def)
  next
    case False
    with len have "bs \<noteq> []" by auto
    then have "pack bs \<noteq> []" by (simp add: pack_eq_Nil)
    then have name: "Name col = pack (bs @ [nb])"
      using c by (simp add: pack_append pack_def)
    from False fit nb have "\<forall>b\<in>set (bs @ [nb]). length b < 65536"
      by auto
    then have "unpackComposite (pack (bs @ [nb])) = Some (bs @ [nb])"
      by (rule unpackComposite_pack)
    with False name show ?thesis
      by (simp add: nameComponents_def)
  qed
  with nb vb c show ?thesis by simp
qed

lemma unmapTurn_of_column:
  assumes cons: "registryConsistent insp" and f: "f \<in> set (orderedFields insp)"
    and col: "isColumnOf C r (pack bs) f col"
    and fit: "components m \<noteq> [] \<longrightarrow>
                (\<forall>b\<in>set bs. length b < 65536)
                \<and> (\<forall>nb. marshalName C f = Inr nb \<longrightarrow> length nb < 65536)"
    and comps: "list_all2 (\<lambda>c b. \<exists>f. goFields insp c = Some f \<and> name f = c
                          \<and> marshalValue C f r = Inr b \<and> valueRoundTrips C r d f)
                   (components m) bs"
    and rt: "valueRoundTrips C r d f" "nameRoundTrips C f"
    and prev: "flag \<longrightarrow> length prev = length bs + 1 \<and> butlast prev = bs"
  shows "\<exists>nb. unmapTurn C m insp flag prev (mixed S r d) col
           = Continue (bs @ [nb])
               (mixed (insert (name f) (if flag then S else S \<union> set (components m))) r d)"
proof -
  from comps have len: "length bs = length (components m)"
    by (simp add: list_all2_lengthD)
  from nameComponents_of_column [OF col len fit]
  obtain nb vb where nb: "marshalName C f = Inr nb" and vb: "marshalValue C f r = Inr vb"
    and nc: "nameComponents m col = Some (bs @ [nb])" and val: "Value col = vb"
    by blast
  have ext: "extractComponents m col insp 1 = Inr (bs @ [nb])"
    using nc len by (simp add: extractComponents_Inr)
  let ?S1 = "if flag then S else S \<union> set (components m)"
  have first: "unmapComponents C m insp (bs @ [nb]) (mixed S r d)
                 = (None, mixed (S \<union> set (components m)) r d)"
    using unmapComponents_from_mixed [OF comps, of "[]" "[nb]" S]
    by (simp add: unmapComponents_def)
  have later: "\<not> isNewComponents prev (bs @ [nb]) 1" if flag
    using that prev by (auto simp add: isNewComponents_iff butlast_conv_take)
  have "Unmarshal C nb UTF8Type (VString []) = Inr (VString (cassandraName f))"
    using nb rt(2) by (simp add: marshalName_Inr nameRoundTrips_def)
  moreover have "cassandraFields insp (cassandraName f) = Some f"
    using cons f by (simp add: cassandraFields_consistent)
  moreover have "unmarshalValue C f vb (mixed ?S1 r d) = (None, mixed (insert (name f) ?S1) r d)"
    by (rule unmarshalValue_mixed [OF vb rt(1)])
  ultimately have field: "fieldTurn C insp col (bs @ [nb]) (mixed ?S1 r d)
                 = Continue (bs @ [nb]) (mixed (insert (name f) ?S1) r d)"
    using val by (simp add: fieldTurn_def unmapField_def)
  have "unmapTurn C m insp flag prev (mixed S r d) col
           = Continue (bs @ [nb]) (mixed (insert (name f) ?S1) r d)"
  proof (cases flag)
    case True
    with ext later field show ?thesis
      by (simp add: unmapTurn_def del: One_nat_def)
  next
    case False
    with ext first field show ?thesis
      by (simp add: unmapTurn_def del: One_nat_def)
  qed
  then show ?thesis by blast
qed


subsection \<open>The sparse loop over the columns of Map\<close>

lemma unmapLoop_roundtrip:
  assumes turn: "\<And>col flag prev S f. col \<in> set cs \<Longrightarrow> Q f col
            \<Longrightarrow> (flag \<longrightarrow> length prev = length bs + 1 \<and> butlast prev = bs)
            \<Longrightarrow> \<exists>nb. unmapTurn C m insp flag prev (mixed S r d) col
                  = Continue (bs @ [nb]) (mixed (insert (name f) (if flag then S else S \<union> K)) r d)"
    and some: "\<And>col. col \<in> set cs \<Longrightarrow> \<exists>f. Q f col"
    and prev: "flag \<longrightarrow> length prev = length bs + 1 \<and> butlast prev = bs"
    and i: "i \<le> length cs"
  shows "\<exists>S'. unmapLoop C m listProvider insp flag prev (mixed S r d)
                 \<lparr> curKey = k, curColumns = cs, curPos = i, curEnd = e \<rparr>
               = Some (if e = EndBeforeLimit then (if flag \<or> i < length cs then None else Some Done)
                       else if e = EndAtLimit then Some Done else Some e,
                       mixed S' r d,
                       \<lparr> curKey = k, curColumns = cs, curPos = length cs, curEnd = e \<rparr>)
             \<and> S \<subseteq> S' \<and> (\<not> flag \<and> i < length cs \<longrightarrow> K \<subseteq> S')
             \<and> (\<forall>col\<in>set (drop i cs). \<forall>f. Q f col \<longrightarrow> name f \<in> S')"
  using prev i
proof (induction "length cs - i" arbitrary: i flag prev S)
  case 0
  then have "i = length cs" by simp
  then show ?case
    by (intro exI [of _ S]) (simp add: unmapLoop_list_end)
next
  case (Suc n)
  then have i: "i < length cs" by simp
  let ?col = "cs ! i"
  let ?S1 = "if flag then S else S \<union> K"
  from i have mem: "?col \<in> set cs" by simp
  from some [OF mem] obtain f0 where f0: "Q f0 ?col" by blast
  from turn [OF mem f0 Suc.prems(1)] obtain nb where
    t0: "unmapTurn C m insp flag prev (mixed S r d) ?col
           = Continue (bs @ [nb]) (mixed (insert (name f0) ?S1) r d)"
    by blast
  define v2 where "v2 = mixed (insert (name f0) ?S1) r d"
  define S2 where "S2 = {n. v2 n = r n}"
  have v2: "v2 = mixed S2 r d"
    by (rule ext) (simp add: S2_def v2_def mixed_def)
  have S1: "?S1 \<subseteq> S2"
    by (auto simp add: S2_def v2_def mixed_def)
  have covered: "name f \<in> S2" if "Q f ?col" for f
  proof -
    from turn [OF mem that Suc.prems(1)] obtain nb' where
      "unmapTurn C m insp flag prev (mixed S r d) ?col
         = Continue (bs @ [nb']) (mixed (insert (name f) ?S1) r d)"
      by blast
    with t0 have "v2 = mixed (insert (name f) ?S1) r d"
      by (simp add: v2_def)
    then show ?thesis
      by (simp add: S2_def mixed_def)
  qed
  have "\<exists>S'. unmapLoop C m listProvider insp True (bs @ [nb]) (mixed S2 r d)
                 \<lparr> curKey = k, curColumns = cs, curPos = Suc i, curEnd = e \<rparr>
               = Some (if e = EndBeforeLimit then (if True \<or> Suc i < length cs then None else Some Done)
                       else if e = EndAtLimit then Some Done else Some e,
                       mixed S' r d,
                       \<lparr> curKey = k, curColumns = cs, curPos = length cs, curEnd = e \<rparr>)
             \<and> S2 \<subseteq> S' \<and> (\<not> True \<and> Suc i < length cs \<longrightarrow> K \<subseteq> S')
             \<and> (\<forall>col\<in>set (drop (Suc i) cs). \<forall>f. Q f col \<longrightarrow> name f \<in> S')"
    using Suc.hyps(2) i by (intro Suc.hyps(1)) auto
  then obtain S' where run: "unmapLoop C m listProvider insp True (bs @ [nb]) (mixed S2 r d)
                 \<lparr> curKey = k, curColumns = cs, curPos = Suc i, curEnd = e \<rparr>
               = Some (if e = EndBeforeLimit then None
                       else if e = EndAtLimit then Some Done else Some e,
                       mixed S' r d,
                       \<lparr> curKey = k, curColumns = cs, curPos = length cs, curEnd = e \<rparr>)"
    and S2: "S2 \<subseteq> S'"
    and rest: "\<forall>col\<in>set (drop (Suc i) cs). \<forall>f. Q f col \<longrightarrow> name f \<in> S'"
    by auto
  have "unmapLoop C m listProvider insp flag prev (mixed S r d)
                 \<lparr> curKey = k, curColumns = cs, curPos = i, curEnd = e \<rparr>
          = Some (if e = EndBeforeLimit then None
                       else if e = EndAtLimit then Some Done else Some e,
                       mixed S' r d,
                       \<lparr> curKey = k, curColumns = cs, curPos = length cs, curEnd = e \<rparr>)"
    using i t0 run v2 by (simp add: unmapLoop_list_step v2_def)
  moreover have "S \<subseteq> S'" and "\<not> flag \<longrightarrow> K \<subseteq> S'"
    using S1 S2 by (auto split: if_splits)
  moreover have "\<forall>col\<in>set (drop i cs). \<forall>f. Q f col \<longrightarrow> name f \<in> S'"
  proof -
    have "drop i cs = ?col # drop (Suc i) cs"
      using i by (simp add: Cons_nth_drop_Suc)
    with rest covered S2 show ?thesis by auto
  qed
  ultimately show ?case
    using i by (intro exI [of _ S']) simp
qed

lemma list_all2_right_ex:
  assumes "list_all2 P xs ys" and "y \<in> set ys"
  shows "\<exists>x\<in>set xs. P x y"
  using assms by (induction rule: list_all2_induct) auto

lemma list_all2_left_ex:
  assumes "list_all2 P xs ys" and "x \<in> set xs"
  shows "\<exists>y\<in>set ys. P x y"
  using assms by (induction rule: list_all2_induct) auto

lemma components_aligned:
  assumes cons: "registryConsistent insp" and codec: "codecRoundTrips C insp r d"
    and "list_all2 (\<lambda>c b. \<exists>f. goFields insp c = Some f \<and> marshalValue C f r = Inr b) cs bs"
  shows "list_all2 (\<lambda>c b. \<exists>f. goFields insp c = Some f \<and> name f = c
                          \<and> marshalValue C f r = Inr b \<and> valueRoundTrips C r d f) cs bs"
  using assms(3)
proof (rule list_all2_mono)
  fix c b
  assume "\<exists>f. goFields insp c = Some f \<and> marshalValue C f r = Inr b"
  then obtain f where f: "goFields insp c = Some f" "marshalValue C f r = Inr b" by blast
  with cons have "f \<in> set (orderedFields insp)" "name f = c"
    by (simp_all add: goFields_consistent)
  with codec have "valueRoundTrips C r d f"
    by (simp add: codecRoundTrips_def list_all_iff)
  with f \<open>name f = c\<close>
  show "\<exists>f. goFields insp c = Some f \<and> name f = c
             \<and> marshalValue C f r = Inr b \<and> valueRoundTrips C r d f"
    by blast
qed

lemma components_fit:
  assumes fit: "componentValuesFit C insp cs r"
    and "list_all2 (\<lambda>c b. \<exists>f. goFields insp c = Some f \<and> marshalValue C f r = Inr b) cs bs"
  shows "\<forall>b\<in>set bs. length b < 65536"
proof
  fix b assume "b \<in> set bs"
  from list_all2_right_ex [OF assms(2) this]
  obtain c f where c: "c \<in> set cs" and f: "goFields insp c = Some f" "marshalValue C f r = Inr b"
    by blast
  from fit c f(1)
  have "\<forall>b. Marshal C (r (name f)) (cassandraType f) = Inr b \<longrightarrow> length b < 65536"
    by (auto simp add: componentValuesFit_def list_all_iff)
  with f(2) show "length b < 65536"
    by (simp add: marshalValue_Inr)
qed

lemma startUnmap_key:
  assumes "goFields insp (key m) = Some kf" and "marshalValue C kf r = Inr kb"
    and "valueRoundTrips C r d kf"
  shows "startUnmap C m (StructPtr insp d) listProvider
           \<lparr> curKey = kb, curColumns = cs, curPos = i, curEnd = e \<rparr>
         = (Inr (mixed {name kf} r d, insp),
            \<lparr> curKey = kb, curColumns = cs, curPos = i, curEnd = e \<rparr>)"
proof -
  have "d = mixed {} r d"
    by (rule ext) (simp add: mixed_def)
  with unmarshalValue_mixed [OF assms(2,3), of "{}"]
  have "unmarshalValue C kf kb d = (None, mixed {name kf} r d)"
    by simp
  with assms(1) show ?thesis
    by (simp add: startUnmap_def NextColumn_listProvider)
qed

lemma entryType_simps:
  "rtype (entryType tags) = ''Entry''"
  "globalTags (entryType tags) = tags"
  "orderedFields (entryType tags) = take 3 userFields"
  "goFields (entryType tags) = map_of (map (\<lambda>f. (name f, f)) (take 3 userFields))"
  "cassandraFields (entryType tags) = map_of (map (\<lambda>f. (cassandraName f, f)) (take 3 userFields))"
  by (simp_all add: entryType_def inspectionOf_def)

lemma registryConsistent_examples:
  "registryConsistent (userType tags)"
  "registryConsistent (entryType tags)"
  by (simp_all add: registryConsistent_def userType_simps entryType_simps userFields_def)

lemma demo_long_roundtrip:
  "Marshal demoCodec (VLong 30) LongType = Inr [0, 0, 0, 0, 0, 0, 0, 30]"
  "Unmarshal demoCodec [0, 0, 0, 0, 0, 0, 0, 30] LongType (VLong w) = Inr (VLong 30)"
  by (simp_all add: demoCodec_def demoMarshal_def demoUnmarshal_def)

lemma codecRoundTrips_user:
  "codecRoundTrips demoCodec (userType tags) alice freshUser"
  by (simp add: codecRoundTrips_def valueRoundTrips_def nameRoundTrips_def userType_simps
        userFields_def alice_def freshUser_def demo_utf8_roundtrip demo_long_roundtrip)

lemma fit_user:
  "componentValuesFit demoCodec (userType tags) [''Kind''] alice"
  "columnNamesFit demoCodec userMapping (userType tags)"
  by (simp_all add: componentValuesFit_def columnNamesFit_def userMapping_simps userType_simps
        userFields_def alice_def demo_utf8_roundtrip length_utf8)

lemma NewMapping_user:
  "NewMapping (StructPtr (userType userTags) v) = Inr (Sparse userMapping)"
  by (simp add: NewMapping_def Let_def userType_simps userTags_def userFields_def userMapping_def)

lemma Map_alice:
  "sparseMapping_Map demoCodec userMapping (StructPtr (userType userTags) alice)
     = Inr \<lparr> Key = utf8 ''u1'',
             Columns = [mkColumn (pack [utf8 ''profile'', utf8 ''Name'']) (utf8 ''Alice''),
                        mkColumn (pack [utf8 ''profile'', utf8 ''Age''])
                          [0, 0, 0, 0, 0, 0, 0, 30]] \<rparr>"
  by (simp add: sparseMapping_Map_def startMap_def userMapping_simps userType_simps
        userFields_def alice_def marshalValue_def marshalName_def demo_utf8_roundtrip
        demo_long_roundtrip mkColumn_def pack_def packComposite_def)

lemma NewMapping_allComponents:
  "NewMapping (StructPtr (userType allComponentsTags) v)
     = Inr (Sparse (newSparseMapping (userType allComponentsTags) ''users'' ''Id''
                      [''Kind'', ''Name'', ''Age'']))"
  by (simp add: NewMapping_def Let_def userType_simps allComponentsTags_def userFields_def)

lemma NewMapping_compact_examples:
  "NewMapping (StructPtr (entryType compactTags) v)
     = Inr (Compact (newCompactMapping (entryType compactTags) ''users'' ''Id'' ''Name'' [''Kind'']))"
  "NewMapping (StructPtr (userType compactTags) v)
     = Inr (Compact (newCompactMapping (userType compactTags) ''users'' ''Id'' ''Name'' [''Kind'']))"
  by (simp_all add: NewMapping_def Let_def userType_simps entryType_simps compactTags_def
        userFields_def)

lemma codecRoundTrips_entry:
  "codecRoundTrips demoCodec (entryType tags) bob freshEntry"
  by (simp add: codecRoundTrips_def valueRoundTrips_def nameRoundTrips_def entryType_simps
        userFields_def bob_def freshEntry_def demo_utf8_roundtrip)

lemma fit_entry:
  "componentValuesFit demoCodec (entryType tags) [''Kind''] bob"
  by (simp add: componentValuesFit_def entryType_simps userFields_def bob_def
        demo_utf8_roundtrip length_utf8)

lemma compactMapping_Map_examples:
  "compactMapping_Map demoCodec
       (newCompactMapping (entryType compactTags) ''users'' ''Id'' ''Name'' [''Kind''])
       (StructPtr (entryType compactTags) bob)
     = Inr \<lparr> Key = utf8 ''u2'',
             Columns = [mkColumn (pack [utf8 ''settings'']) (utf8 ''Bob'')] \<rparr>"
  "compactMapping_Map demoCodec
       (newCompactMapping (userType compactTags) ''users'' ''Id'' ''Name'' [''Kind''])
       (StructPtr (userType compactTags) alice)
     = Inr \<lparr> Key = utf8 ''u1'',
             Columns = [mkColumn (pack [utf8 ''profile'']) (utf8 ''Alice'')] \<rparr>"
  by (simp_all add: compactMapping_Map_def startMap_def newCompactMapping_simps
        userType_simps entryType_simps userFields_def alice_def bob_def marshalValue_def
        demo_utf8_roundtrip mkColumn_def pack_def)

subsection \<open>The sparse round trip\<close>

text \<open>
  C1 (as stated, refuted): a sparse-mapped type whose fields are all the key or
  component fields. \<open>Map\<close> of a record makes a row without columns; \<open>Unmap\<close> over a
  provider on that row sets the key, gets no column, returns \<open>Done\<close> and leaves the
  component field \<open>Kind\<close> as it was in the fresh record.
\<close>

theorem C1_no_columns_counterexample:
  "NewMapping (StructPtr (userType allComponentsTags) alice)
     = Inr (Sparse (newSparseMapping (userType allComponentsTags) ''users'' ''Id''
                      [''Kind'', ''Name'', ''Age'']))
   \<and> sparseMapping_Map demoCodec
         (newSparseMapping (userType allComponentsTags) ''users'' ''Id'' [''Kind'', ''Name'', ''Age''])
         (StructPtr (userType allComponentsTags) alice)
     = Inr \<lparr> Key = utf8 ''u1'', Columns = [] \<rparr>
   \<and> sparseMapping_Unmap demoCodec
         (newSparseMapping (userType allComponentsTags) ''users'' ''Id'' [''Kind'', ''Name'', ''Age''])
         (StructPtr (userType allComponentsTags) freshUser) listProvider
         \<lparr> curKey = utf8 ''u1'', curColumns = [], curPos = 0, curEnd = EndBeforeLimit \<rparr>
     = Some (Some Done,
         StructPtr (userType allComponentsTags) (freshUser(''Id'' := VString ''u1'')),
         \<lparr> curKey = utf8 ''u1'', curColumns = [], curPos = 0, curEnd = EndBeforeLimit \<rparr>)
   \<and> (freshUser(''Id'' := VString ''u1'')) ''Kind'' \<noteq> alice ''Kind''"
proof -
  let ?T = "userType allComponentsTags"
  let ?m = "newSparseMapping ?T ''users'' ''Id'' [''Kind'', ''Name'', ''Age'']"
  have m: "key ?m = ''Id''" "components ?m = [''Kind'', ''Name'', ''Age'']"
      "componentsMap ?m = [''Kind'' \<mapsto> True, ''Name'' \<mapsto> True, ''Age'' \<mapsto> True]"
    by (simp_all add: newSparseMapping_def)
  have row: "sparseMapping_Map demoCodec ?m (StructPtr ?T alice)
               = Inr \<lparr> Key = utf8 ''u1'', Columns = [] \<rparr>"
    by (simp add: sparseMapping_Map_def startMap_def m userType_simps
          userFields_def alice_def marshalValue_def demo_utf8_roundtrip demo_long_roundtrip)
  have start: "startUnmap demoCodec ?m (StructPtr ?T freshUser) listProvider
                  \<lparr> curKey = utf8 ''u1'', curColumns = [], curPos = 0, curEnd = EndBeforeLimit \<rparr>
               = (Inr (freshUser(''Id'' := VString ''u1''), ?T),
                  \<lparr> curKey = utf8 ''u1'', curColumns = [], curPos = 0, curEnd = EndBeforeLimit \<rparr>)"
    by (simp add: startUnmap_def m userType_simps userFields_def
          NextColumn_listProvider unmarshalValue_def demo_utf8_roundtrip freshUser_def)
  have run: "sparseMapping_Unmap demoCodec ?m (StructPtr ?T freshUser) listProvider
         \<lparr> curKey = utf8 ''u1'', curColumns = [], curPos = 0, curEnd = EndBeforeLimit \<rparr>
     = Some (Some Done, StructPtr ?T (freshUser(''Id'' := VString ''u1'')),
         \<lparr> curKey = utf8 ''u1'', curColumns = [], curPos = 0, curEnd = EndBeforeLimit \<rparr>)"
    by (simp add: sparseMapping_Unmap_def start unmapLoop_list_end)
  have differ: "(freshUser(''Id'' := VString ''u1'')) ''Kind'' \<noteq> alice ''Kind''"
    by (simp add: freshUser_def alice_def)
  from NewMapping_allComponents [of alice] row run differ show ?thesis by simp
qed

text \<open>
  C1 (amended): let the type have a consistent registry and a sparse mapping built by
  \<open>NewMapping\<close>, let the codec read back what it marshals for the fields of \<open>r\<close>,
  let, when there are component fields, the marshalled value of every component field
  and the marshalled name of every other field but the key be shorter than \<open>2 ^ 16\<close>
  bytes (the key and the values of the other fields may have any length), and let
  \<open>d\<close> be a fresh record of the type. If \<open>Map\<close> of \<open>r\<close> gives a row with at
  least one column, then \<open>Unmap\<close> into \<open>d\<close> over a provider on the row's key and its
  columns, in any order (Name order is one), consumes all columns and leaves a record
  equal to \<open>r\<close>. The call returns success when the provider ends with
  \<open>EndBeforeLimit\<close>, and the provider's end signal as an error otherwise (\<open>Done\<close> for
  \<open>EndAtLimit\<close>).
\<close>

theorem C1_sparse_round_trip:
  assumes cons: "registryConsistent insp"
    and new: "NewMapping (StructPtr insp r0) = Inr (Sparse m)"
    and codec: "codecRoundTrips C insp r d"
    and fit: "components m \<noteq> [] \<longrightarrow>
                componentValuesFit C insp (components m) r \<and> columnNamesFit C m insp"
    and same: "\<forall>n. n \<notin> name ` set (orderedFields insp) \<longrightarrow> d n = r n"
    and row: "sparseMapping_Map C m (StructPtr insp r) = Inr row"
    and cols: "Columns row \<noteq> []"
    and cs: "set cs = set (Columns row)"
  shows "sparseMapping_Unmap C m (StructPtr insp d) listProvider
           \<lparr> curKey = Key row, curColumns = cs, curPos = 0, curEnd = e \<rparr>
         = Some (if e = EndBeforeLimit then None
                 else if e = EndAtLimit then Some Done else Some e,
                 StructPtr insp r,
                 \<lparr> curKey = Key row, curColumns = cs, curPos = length cs, curEnd = e \<rparr>)"
proof -
  from NewMapping_Sparse(1) [OF new] obtain kf where kf: "goFields insp (key m) = Some kf"
    by blast
  with cons have kf': "kf \<in> set (orderedFields insp)" "name kf = key m"
    by (simp_all add: goFields_consistent)
  have cm: "componentsMap m n = None \<longleftrightarrow> n \<notin> set (components m)" for n
    by (rule NewMapping_Sparse(3) [OF new])
  from row kf obtain kb composite new where kb: "marshalValue C kf r = Inr kb"
    and composite: "startMap_composite C insp r (components m) [] = Inr composite"
    and mapc: "Map_columns C m r composite (orderedFields insp) [] = Inr new"
    and row': "row = \<lparr> Key = kb, Columns = new \<rparr>"
    by (auto simp add: sparseMapping_Map_def startMap_def split: sum.splits)
  from startMap_composite_result [OF composite] obtain bs where bs: "composite = pack bs"
    and al: "list_all2 (\<lambda>c b. \<exists>f. goFields insp c = Some f \<and> marshalValue C f r = Inr b)
               (components m) bs"
    by auto
  note aligned = components_aligned [OF cons codec al]
  from Map_columns_result [OF mapc]
  have new: "list_all2 (isColumnOf C r (pack bs))
               (filter (\<lambda>f. name f \<noteq> key m \<and> name f \<notin> set (components m)) (orderedFields insp))
               new"
    by (simp add: bs cm)
  have cs': "set cs = set new" "cs \<noteq> []"
    using cs cols row' by auto
  define Q where "Q f col \<longleftrightarrow>
      f \<in> set (filter (\<lambda>f. name f \<noteq> key m \<and> name f \<notin> set (components m)) (orderedFields insp))
      \<and> isColumnOf C r (pack bs) f col"
    for f col
  have some: "\<exists>f. Q f col" if "col \<in> set cs" for col
    using list_all2_right_ex [OF new] that cs'(1) by (auto simp add: Q_def)
  have turn: "\<exists>nb. unmapTurn C m insp flag prev (mixed S r d) col
                  = Continue (bs @ [nb])
                      (mixed (insert (name f) (if flag then S else S \<union> set (components m))) r d)"
    if "col \<in> set cs" and q: "Q f col"
      and p: "flag \<longrightarrow> length prev = length bs + 1 \<and> butlast prev = bs"
    for col flag prev S f
  proof -
    from q have fc: "f \<in> set (filter (\<lambda>f. name f \<noteq> key m \<and> name f \<notin> set (components m))
                                   (orderedFields insp))"
      and c: "isColumnOf C r (pack bs) f col"
      by (simp_all add: Q_def)
    from fc have f: "f \<in> set (orderedFields insp)" by simp
    from codec f have rt: "valueRoundTrips C r d f" "nameRoundTrips C f"
      by (simp_all add: codecRoundTrips_def list_all_iff)
    have fits: "components m \<noteq> [] \<longrightarrow>
                (\<forall>b\<in>set bs. length b < 65536)
                \<and> (\<forall>nb. marshalName C f = Inr nb \<longrightarrow> length nb < 65536)"
    proof
      assume "components m \<noteq> []"
      with fit have cf: "componentValuesFit C insp (components m) r"
        and nf: "columnNamesFit C m insp"
        by simp_all
      from nf fc have "\<forall>nb. marshalName C f = Inr nb \<longrightarrow> length nb < 65536"
        unfolding columnNamesFit_def list_all_iff marshalName_Inr by blast
      with components_fit [OF cf al]
      show "(\<forall>b\<in>set bs. length b < 65536)
                \<and> (\<forall>nb. marshalName C f = Inr nb \<longrightarrow> length nb < 65536)"
        by simp
    qed
    show ?thesis
      by (rule unmapTurn_of_column [OF cons f c fits aligned rt p])
  qed
  from unmapLoop_roundtrip [of cs Q bs C m insp r d "set (components m)" False "[]" 0
          "{key m}" kb e, OF turn some]
  obtain S' where run: "unmapLoop C m listProvider insp False [] (mixed {key m} r d)
                 \<lparr> curKey = kb, curColumns = cs, curPos = 0, curEnd = e \<rparr>
               = Some (if e = EndBeforeLimit then None
                       else if e = EndAtLimit then Some Done else Some e,
                       mixed S' r d,
                       \<lparr> curKey = kb, curColumns = cs, curPos = length cs, curEnd = e \<rparr>)"
    and S': "key m \<in> S'" "set (components m) \<subseteq> S'"
      "\<forall>col\<in>set cs. \<forall>f. Q f col \<longrightarrow> name f \<in> S'"
    using cs'(2) by auto
  have "d n = r n" if "n \<notin> S'" for n
  proof (cases "n \<in> name ` set (orderedFields insp)")
    case False
    with same show ?thesis by simp
  next
    case True
    then obtain f where f: "f \<in> set (orderedFields insp)" "name f = n" by auto
    with that S'(1,2) have "name f \<noteq> key m" "name f \<notin> set (components m)"
      by auto
    with f(1) have fc: "f \<in> set (filter (\<lambda>f. name f \<noteq> key m \<and> name f \<notin> set (components m))
                             (orderedFields insp))"
      by simp
    from list_all2_left_ex [OF new fc] obtain col where "col \<in> set new"
        "isColumnOf C r (pack bs) f col"
      by blast
    with fc cs'(1) S'(3) have "name f \<in> S'"
      unfolding Q_def by blast
    with that f(2) show ?thesis by simp
  qed
  then have "mixed S' r d = r"
    by (intro mixed_all) simp
  with run startUnmap_key [OF kf kb, of d cs 0 e] codec kf' row' show ?thesis
    by (simp add: sparseMapping_Unmap_def codecRoundTrips_def list_all_iff)
qed

theorem C1_sparse_round_trip_witness:
  "sparseMapping_Unmap demoCodec userMapping (StructPtr (userType userTags) freshUser) listProvider
        \<lparr> curKey = utf8 ''u1'',
          curColumns = [mkColumn (pack [utf8 ''profile'', utf8 ''Age'']) [0, 0, 0, 0, 0, 0, 0, 30],
                        mkColumn (pack [utf8 ''profile'', utf8 ''Name'']) (utf8 ''Alice'')],
          curPos = 0, curEnd = EndBeforeLimit \<rparr>
     = Some (None, StructPtr (userType userTags) alice,
         \<lparr> curKey = utf8 ''u1'',
           curColumns = [mkColumn (pack [utf8 ''profile'', utf8 ''Age'']) [0, 0, 0, 0, 0, 0, 0, 30],
                         mkColumn (pack [utf8 ''profile'', utf8 ''Name'']) (utf8 ''Alice'')],
           curPos = 2, curEnd = EndBeforeLimit \<rparr>)"
proof -
  let ?T = "userType userTags"
  let ?n = "mkColumn (pack [utf8 ''profile'', utf8 ''Name'']) (utf8 ''Alice'')"
  let ?a = "mkColumn (pack [utf8 ''profile'', utf8 ''Age'']) [0, 0, 0, 0, 0, 0, 0, 30]"
  let ?row = "\<lparr> Key = utf8 ''u1'', Columns = [?n, ?a] \<rparr>"
  have fit: "components userMapping \<noteq> [] \<longrightarrow>
               componentValuesFit demoCodec ?T (components userMapping) alice
               \<and> columnNamesFit demoCodec userMapping ?T"
    by (simp add: fit_user userMapping_simps)
  have same: "\<forall>n. n \<notin> name ` set (orderedFields ?T) \<longrightarrow> freshUser n = alice n"
    by (simp add: userType_simps userFields_def alice_def freshUser_def)
  have cols: "Columns ?row \<noteq> []" by simp
  have cs: "set [?a, ?n] = set (Columns ?row)" by auto
  from C1_sparse_round_trip [OF registryConsistent_examples(1) NewMapping_user
         codecRoundTrips_user fit same Map_alice cols cs, of EndBeforeLimit]
  show ?thesis by simp
qed

subsection \<open>The compact round trip\<close>

text \<open>
  C2 (as stated, refuted): a compact mapping stores the key, the component fields and
  the value field only. On the struct \<open>{Id, Kind, Name, Age}\<close> with the component
  \<open>Kind\<close> and the value field \<open>Name\<close>, \<open>Map\<close> makes one column, \<open>Unmap\<close> of it
  succeeds, and the field \<open>Age\<close> of the decoded record is still the fresh one.
\<close>

theorem C2_unmapped_field_counterexample:
  "NewMapping (StructPtr (userType compactTags) alice)
     = Inr (Compact (newCompactMapping (userType compactTags) ''users'' ''Id'' ''Name'' [''Kind'']))
   \<and> compactMapping_Map demoCodec
         (newCompactMapping (userType compactTags) ''users'' ''Id'' ''Name'' [''Kind''])
         (StructPtr (userType compactTags) alice)
     = Inr \<lparr> Key = utf8 ''u1'',
             Columns = [mkColumn (pack [utf8 ''profile'']) (utf8 ''Alice'')] \<rparr>
   \<and> compactMapping_Unmap demoCodec
         (newCompactMapping (userType compactTags) ''users'' ''Id'' ''Name'' [''Kind''])
         (StructPtr (userType compactTags) freshUser) listProvider
         \<lparr> curKey = utf8 ''u1'',
           curColumns = [mkColumn (pack [utf8 ''profile'']) (utf8 ''Alice'')],
           curPos = 0, curEnd = EndBeforeLimit \<rparr>
     = (None,
        StructPtr (userType compactTags)
          (freshUser(''Id'' := VString ''u1'', ''Kind'' := VString ''profile'',
                     ''Name'' := VString ''Alice'')),
        \<lparr> curKey = utf8 ''u1'',
          curColumns = [mkColumn (pack [utf8 ''profile'']) (utf8 ''Alice'')],
          curPos = 1, curEnd = EndBeforeLimit \<rparr>)
   \<and> (freshUser(''Id'' := VString ''u1'', ''Kind'' := VString ''profile'',
                  ''Name'' := VString ''Alice'')) ''Age'' \<noteq> alice ''Age''"
proof -
  let ?T = "userType compactTags"
  let ?m = "newCompactMapping ?T ''users'' ''Id'' ''Name'' [''Kind'']"
  let ?col = "mkColumn (pack [utf8 ''profile'']) (utf8 ''Alice'')"
  let ?s = "\<lambda>i. \<lparr> curKey = utf8 ''u1'', curColumns = [?col], curPos = i, curEnd = EndBeforeLimit \<rparr>"
  let ?v = "freshUser(''Id'' := VString ''u1'')"
  let ?v1 = "freshUser(''Id'' := VString ''u1'', ''Kind'' := VString ''profile'')"
  let ?v2 = "freshUser(''Id'' := VString ''u1'', ''Kind'' := VString ''profile'',
                      ''Name'' := VString ''Alice'')"
  have start: "startUnmap demoCodec ?m (StructPtr ?T freshUser) listProvider (?s 0)
                 = (Inr (?v, ?T), ?s 0)"
    by (simp add: startUnmap_def newCompactMapping_simps userType_simps userFields_def
          NextColumn_listProvider unmarshalValue_def demo_utf8_roundtrip freshUser_def)
  have nxt: "NextColumn listProvider (?s 0) = (Inr ?col, ?s 1)"
    by (simp add: NextColumn_listProvider)
  have "unpackComposite (pack [utf8 ''profile'']) = Some [utf8 ''profile'']"
    by (rule unpackComposite_pack) (simp add: length_utf8)
  then have ext: "extractComponents ?m ?col ?T 0 = Inr [utf8 ''profile'']"
    by (simp add: extractComponents_def nameComponents_def newCompactMapping_simps mkColumn_def)
  have uc: "unmapComponents demoCodec ?m ?T [utf8 ''profile''] ?v = (None, ?v1)"
    by (simp add: unmapComponents_def newCompactMapping_simps userType_simps userFields_def
          unmarshalValue_def demo_utf8_roundtrip freshUser_def)
  have vf: "goFields ?T (valueField ?m)
              = Some \<lparr> name = ''Name'', cassandraType = UTF8Type, cassandraName = ''Name'' \<rparr>"
    by (simp add: newCompactMapping_simps userType_simps userFields_def)
  have uv: "unmarshalValue demoCodec
              \<lparr> name = ''Name'', cassandraType = UTF8Type, cassandraName = ''Name'' \<rparr>
              (Value ?col) ?v1 = (None, ?v2)"
    by (simp add: unmarshalValue_def demo_utf8_roundtrip freshUser_def mkColumn_def)
  have run: "compactMapping_Unmap demoCodec ?m (StructPtr ?T freshUser) listProvider (?s 0)
               = (None, StructPtr ?T ?v2, ?s 1)"
    by (simp add: compactMapping_Unmap_def start nxt ext uc vf uv)
  have differ: "?v2 ''Age'' \<noteq> alice ''Age''"
    by (simp add: freshUser_def alice_def)
  from NewMapping_compact_examples(2) [of alice] compactMapping_Map_examples(2) run differ
  show ?thesis by simp
qed

lemma compact_round_trip:
  assumes cons: "registryConsistent insp"
    and new: "NewMapping (StructPtr insp r0) = Inr (Compact m)"
    and comps: "components m \<noteq> []"
    and cover: "\<forall>f\<in>set (orderedFields insp).
                  name f = key m \<or> name f \<in> set (components m) \<or> name f = valueField m"
    and codec: "codecRoundTrips C insp r d"
    and fit: "componentValuesFit C insp (components m) r"
    and same: "\<forall>n. n \<notin> name ` set (orderedFields insp) \<longrightarrow> d n = r n"
    and row: "compactMapping_Map C m (StructPtr insp r) = Inr row"
  shows "length (Columns row) = 1
       \<and> compactMapping_Unmap C m (StructPtr insp d) listProvider
           \<lparr> curKey = Key row, curColumns = Columns row, curPos = 0, curEnd = e \<rparr>
         = (None, StructPtr insp r,
            \<lparr> curKey = Key row, curColumns = Columns row, curPos = 1, curEnd = e \<rparr>)"
proof -
  from NewMapping_Compact(1) [OF new] obtain kf where kf: "goFields insp (key m) = Some kf"
    by blast
  with cons have kf': "kf \<in> set (orderedFields insp)" "name kf = key m"
    by (simp_all add: goFields_consistent)
  with codec have kfrt: "valueRoundTrips C r d kf"
    by (simp add: codecRoundTrips_def list_all_iff)
  from row kf obtain kb composite x where kb: "marshalValue C kf r = Inr kb"
    and composite: "startMap_composite C insp r (components m) [] = Inr composite"
    and row': "row = \<lparr> Key = kb, Columns = [\<lparr> Name = composite, Value = x, Ttl = 0, Timestamp = 0 \<rparr>] \<rparr>"
    and x: "case goFields insp (valueField m) of
              None \<Rightarrow> True | Some vf \<Rightarrow> marshalValue C vf r = Inr x"
    by (auto simp add: compactMapping_Map_def startMap_def split: sum.splits option.splits)
  let ?col = "\<lparr> Name = composite, Value = x, Ttl = 0, Timestamp = 0 \<rparr>"
  let ?s = "\<lambda>i. \<lparr> curKey = kb, curColumns = [?col], curPos = i, curEnd = e \<rparr>"
  from startMap_composite_result [OF composite] obtain bs where bs: "composite = pack bs"
    and al: "list_all2 (\<lambda>c b. \<exists>f. goFields insp c = Some f \<and> marshalValue C f r = Inr b)
               (components m) bs"
    by auto
  note aligned = components_aligned [OF cons codec al]
  from al have len: "length bs = length (components m)"
    by (simp add: list_all2_lengthD)
  have "unpackComposite (pack bs) = Some bs"
    by (rule unpackComposite_pack) (rule components_fit [OF fit al])
  with comps bs len have ext: "extractComponents m ?col insp 0 = Inr bs"
    by (simp add: extractComponents_Inr nameComponents_def)
  let ?S1 = "{key m} \<union> set (components m)"
  have uc: "unmapComponents C m insp bs (mixed {key m} r d) = (None, mixed ?S1 r d)"
    using unmapComponents_from_mixed [OF aligned, of "[]" "[]" "{key m}"]
    by (simp add: unmapComponents_def)
  have start: "startUnmap C m (StructPtr insp d) listProvider (?s 0)
                 = (Inr (mixed {key m} r d, insp), ?s 0)"
    using startUnmap_key [OF kf kb kfrt, of "[?col]" 0 e] kf' by simp
  have nxt: "NextColumn listProvider (?s 0) = (Inr ?col, ?s 1)"
    by (simp add: NextColumn_listProvider)
  have "compactMapping_Unmap C m (StructPtr insp d) listProvider (?s 0)
          = (None, StructPtr insp r, ?s 1)"
  proof (cases "goFields insp (valueField m)")
    case None
    have "d n = r n" if "n \<notin> ?S1" for n
    proof (cases "n \<in> name ` set (orderedFields insp)")
      case False
      with same show ?thesis by simp
    next
      case True
      then obtain f where f: "f \<in> set (orderedFields insp)" "name f = n" by auto
      with cover that have "name f = valueField m" by auto
      with cons f(1) have "goFields insp (valueField m) = Some f"
        by (simp add: goFields_consistent)
      with None show ?thesis by simp
    qed
    then have "mixed ?S1 r d = r"
      by (intro mixed_all) simp
    with None start nxt ext uc show ?thesis
      by (simp add: compactMapping_Unmap_def)
  next
    case (Some vf)
    with cons have vf: "vf \<in> set (orderedFields insp)" "name vf = valueField m"
      by (simp_all add: goFields_consistent)
    with codec have "valueRoundTrips C r d vf"
      by (simp add: codecRoundTrips_def list_all_iff)
    moreover from x Some have "marshalValue C vf r = Inr x" by simp
    ultimately have uv: "unmarshalValue C vf x (mixed ?S1 r d)
                           = (None, mixed (insert (valueField m) ?S1) r d)"
      using unmarshalValue_mixed [of C vf r x d ?S1] vf(2) by simp
    have "d n = r n" if "n \<notin> insert (valueField m) ?S1" for n
    proof (cases "n \<in> name ` set (orderedFields insp)")
      case False
      with same show ?thesis by simp
    next
      case True
      then obtain f where f: "f \<in> set (orderedFields insp)" "name f = n" by auto
      with cover that show ?thesis by auto
    qed
    then have "mixed (insert (valueField m) ?S1) r d = r"
      by (intro mixed_all) simp
    with Some start nxt ext uc uv show ?thesis
      by (simp add: compactMapping_Unmap_def)
  qed
  with row' show ?thesis by simp
qed

text \<open>
  C2 (amended): the row that the compact \<open>Map\<close> makes of a record has exactly one
  column, for every compact mapping. Let moreover the type have a consistent registry
  and a compact mapping built by \<open>NewMapping\<close> with at least one component field, let
  every declared field be the key, a component field or the value field, let the codec
  read back what it marshals for the fields of \<open>r\<close>, let the marshalled value of
  every component field be shorter than \<open>2 ^ 16\<close> bytes (the key and the value field
  may have any length), and let \<open>d\<close> be a fresh record of the type. Then the compact
  \<open>Unmap\<close> into \<open>d\<close> over a provider on the row of \<open>r\<close> returns success and leaves
  a record equal to \<open>r\<close>.
\<close>

theorem C2_compact_round_trip:
  "(compactMapping_Map C m src = Inr row \<longrightarrow> length (Columns row) = 1)
   \<and> (registryConsistent insp
        \<and> NewMapping (StructPtr insp r0) = Inr (Compact m)
        \<and> components m \<noteq> []
        \<and> (\<forall>f\<in>set (orderedFields insp).
              name f = key m \<or> name f \<in> set (components m) \<or> name f = valueField m)
        \<and> codecRoundTrips C insp r d
        \<and> componentValuesFit C insp (components m) r
        \<and> (\<forall>n. n \<notin> name ` set (orderedFields insp) \<longrightarrow> d n = r n)
        \<and> compactMapping_Map C m (StructPtr insp r) = Inr out
      \<longrightarrow> compactMapping_Unmap C m (StructPtr insp d) listProvider
              \<lparr> curKey = Key out, curColumns = Columns out, curPos = 0, curEnd = e \<rparr>
            = (None, StructPtr insp r,
               \<lparr> curKey = Key out, curColumns = Columns out, curPos = 1, curEnd = e \<rparr>))"
proof (intro conjI impI)
  assume "compactMapping_Map C m src = Inr row"
  then show "length (Columns row) = 1"
    using compactMapping_Map_single_column [of C m src row] by auto
next
  assume a: "registryConsistent insp
        \<and> NewMapping (StructPtr insp r0) = Inr (Compact m)
        \<and> components m \<noteq> []
        \<and> (\<forall>f\<in>set (orderedFields insp).
              name f = key m \<or> name f \<in> set (components m) \<or> name f = valueField m)
        \<and> codecRoundTrips C insp r d
        \<and> componentValuesFit C insp (components m) r
        \<and> (\<forall>n. n \<notin> name ` set (orderedFields insp) \<longrightarrow> d n = r n)
        \<and> compactMapping_Map C m (StructPtr insp r) = Inr out"
  then have "registryConsistent insp" "NewMapping (StructPtr insp r0) = Inr (Compact m)"
      "components m \<noteq> []"
      "\<forall>f\<in>set (orderedFields insp).
              name f = key m \<or> name f \<in> set (components m) \<or> name f = valueField m"
      "codecRoundTrips C insp r d" "componentValuesFit C insp (components m) r"
      "\<forall>n. n \<notin> name ` set (orderedFields insp) \<longrightarrow> d n = r n"
      "compactMapping_Map C m (StructPtr insp r) = Inr out"
    by blast+
  from compact_round_trip [OF this, of e]
  show "compactMapping_Unmap C m (StructPtr insp d) listProvider
              \<lparr> curKey = Key out, curColumns = Columns out, curPos = 0, curEnd = e \<rparr>
            = (None, StructPtr insp r,
               \<lparr> curKey = Key out, curColumns = Columns out, curPos = 1, curEnd = e \<rparr>)"
    by simp
qed

theorem C2_compact_round_trip_witness:
  "compactMapping_Unmap demoCodec
       (newCompactMapping (entryType compactTags) ''users'' ''Id'' ''Name'' [''Kind''])
       (StructPtr (entryType compactTags) freshEntry) listProvider
       \<lparr> curKey = utf8 ''u2'',
         curColumns = [mkColumn (pack [utf8 ''settings'']) (utf8 ''Bob'')],
         curPos = 0, curEnd = EndBeforeLimit \<rparr>
     = (None, StructPtr (entryType compactTags) bob,
        \<lparr> curKey = utf8 ''u2'',
          curColumns = [mkColumn (pack [utf8 ''settings'']) (utf8 ''Bob'')],
          curPos = 1, curEnd = EndBeforeLimit \<rparr>)"
proof -
  let ?T = "entryType compactTags"
  let ?m = "newCompactMapping ?T ''users'' ''Id'' ''Name'' [''Kind'']"
  have comps: "components ?m \<noteq> []"
    by (simp add: newCompactMapping_simps)
  have cover: "\<forall>f\<in>set (orderedFields ?T).
                  name f = key ?m \<or> name f \<in> set (components ?m) \<or> name f = valueField ?m"
    by (simp add: newCompactMapping_simps entryType_simps userFields_def)
  have same: "\<forall>n. n \<notin> name ` set (orderedFields ?T) \<longrightarrow> freshEntry n = bob n"
    by (simp add: entryType_simps userFields_def bob_def freshEntry_def)
  have fit: "componentValuesFit demoCodec ?T (components ?m) bob"
    by (simp add: fit_entry newCompactMapping_simps)
  let ?row = "\<lparr> Key = utf8 ''u2'',
                 Columns = [mkColumn (pack [utf8 ''settings'']) (utf8 ''Bob'')] \<rparr>"
  have hyps: "registryConsistent ?T
        \<and> NewMapping (StructPtr ?T bob) = Inr (Compact ?m)
        \<and> components ?m \<noteq> []
        \<and> (\<forall>f\<in>set (orderedFields ?T).
              name f = key ?m \<or> name f \<in> set (components ?m) \<or> name f = valueField ?m)
        \<and> codecRoundTrips demoCodec ?T bob freshEntry
        \<and> componentValuesFit demoCodec ?T (components ?m) bob
        \<and> (\<forall>n. n \<notin> name ` set (orderedFields ?T) \<longrightarrow> freshEntry n = bob n)
        \<and> compactMapping_Map demoCodec ?m (StructPtr ?T bob) = Inr ?row"
    using registryConsistent_examples(2) [of compactTags] NewMapping_compact_examples(1) [of bob]
      comps cover codecRoundTrips_entry [of compactTags] fit same compactMapping_Map_examples(1)
    by blast
  from C2_compact_round_trip
         [where C = demoCodec and m = ?m and insp = ?T and ?r0.0 = bob and r = bob
            and d = freshEntry and out = ?row and e = EndBeforeLimit,
          THEN conjunct2, THEN mp, OF hyps]
  show ?thesis by simp
qed

section \<open>Exhaustion signals after any number of columns\<close>

lemma unmapLoop_consumeColumns:
  assumes "consumeColumns C m p insp n (flag, prev, v, s) = Some (flag', prev', v', s')"
  shows "unmapLoop C m p insp flag prev v s = unmapLoop C m p insp flag' prev' v' s'
       \<and> (flag' \<longleftrightarrow> flag \<or> 0 < n)"
  using assms
proof (induction n arbitrary: flag prev v s)
  case 0
  then show ?case by simp
next
  case (Suc n)
  from Suc.prems obtain column s1 comps v1 where
    nxt: "NextColumn p s = (Inr column, s1)"
    and turn: "unmapTurn C m insp flag prev v column = Continue comps v1"
    and rest: "consumeColumns C m p insp n (True, comps, v1, s1) = Some (flag', prev', v', s')"
    by (auto split: prod.splits sum.splits turn.splits)
  from Suc.IH [OF rest]
  have "unmapLoop C m p insp True comps v1 s1 = unmapLoop C m p insp flag' prev' v' s'"
    and "flag'"
    by simp_all
  moreover have "unmapLoop C m p insp flag prev v s = unmapLoop C m p insp True comps v1 s1"
    using nxt turn by (subst unmapLoop_turn) simp
  ultimately show ?case by simp
qed

lemma unmapTurn_user_second:
  "unmapTurn demoCodec userMapping (userType userTags) True [utf8 ''profile'', utf8 ''Name'']
       (freshUser(''Id'' := VString ''u1'', ''Kind'' := VString ''profile'',
                  ''Name'' := VString ''Alice''))
       (mkColumn (pack [utf8 ''profile'', utf8 ''Age'']) [0, 0, 0, 0, 0, 0, 0, 30])
     = Continue [utf8 ''profile'', utf8 ''Age'']
         (freshUser(''Id'' := VString ''u1'', ''Kind'' := VString ''profile'',
                    ''Name'' := VString ''Alice'', ''Age'' := VLong 30))"
proof -
  let ?T = "userType userTags"
  let ?col = "mkColumn (pack [utf8 ''profile'', utf8 ''Age'']) [0, 0, 0, 0, 0, 0, 0, 30]"
  let ?comps = "[utf8 ''profile'', utf8 ''Age'']"
  let ?v2 = "freshUser(''Id'' := VString ''u1'', ''Kind'' := VString ''profile'',
                      ''Name'' := VString ''Alice'')"
  have ext: "extractComponents userMapping ?col ?T 1 = Inr ?comps"
    by (rule extractComponents_user) simp_all
  have same: "\<not> isNewComponents [utf8 ''profile'', utf8 ''Name''] ?comps 1"
    by (simp add: isNewComponents_iff)
  have uf: "unmapField demoCodec ?T ?col ?comps ?v2 = (None, ?v2(''Age'' := VLong 30))"
    by (simp add: unmapField_def userType_simps userFields_def unmarshalValue_def
          demo_utf8_roundtrip demo_long_roundtrip freshUser_def mkColumn_def)
  show ?thesis
    unfolding unmapTurn_def fieldTurn_def by (simp add: ext same uf del: One_nat_def)
qed

text \<open>
  C5: at any turn of the sparse loop, \<open>Done\<close> from the provider is returned as
  \<open>Done\<close>; \<open>EndBeforeLimit\<close> ends the call with success when
  \<open>compositeFieldsAreSet\<close> holds and with \<open>Done\<close> otherwise; \<open>EndAtLimit\<close> is
  returned as \<open>Done\<close> whatever the flag. For a whole call: when \<open>Unmap\<close> has
  consumed \<open>n\<close> columns, for any \<open>n\<close>, and the provider then gives one of the three
  signals, \<open>Done\<close> and \<open>EndAtLimit\<close> make the call return \<open>Done\<close>, and
  \<open>EndBeforeLimit\<close> makes it return success if \<open>n\<close> is at least one and \<open>Done\<close>
  if no column has been consumed. The struct is the one decoded so far.
\<close>

theorem C5_exhaustion_signals:
  "(NextColumn p s = (Inl Done, s')
      \<longrightarrow> unmapLoop C m p insp compositeFieldsAreSet previousComponents v s
            = Some (Some Done, v, s'))
   \<and> (NextColumn p s = (Inl EndBeforeLimit, s')
      \<longrightarrow> unmapLoop C m p insp compositeFieldsAreSet previousComponents v s
            = Some (if compositeFieldsAreSet then None else Some Done, v, s'))
   \<and> (NextColumn p s = (Inl EndAtLimit, s')
      \<longrightarrow> unmapLoop C m p insp compositeFieldsAreSet previousComponents v s
            = Some (Some Done, v, s'))
   \<and> (startUnmap C m destination p s = (Inr (v, insp), s0)
        \<and> consumeColumns C m p insp n (False, [], v, s0) = Some (flag, prev, v', s1)
        \<and> NextColumn p s1 = (Inl e, s2) \<and> e \<in> {Done, EndBeforeLimit, EndAtLimit}
      \<longrightarrow> sparseMapping_Unmap C m destination p s
            = Some (if e = EndBeforeLimit \<and> 0 < n then None else Some Done,
                    StructPtr insp v', s2))"
proof (intro conjI impI)
  assume "NextColumn p s = (Inl Done, s')"
  then show "unmapLoop C m p insp compositeFieldsAreSet previousComponents v s
            = Some (Some Done, v, s')"
    by (subst unmapLoop.simps) simp
next
  assume "NextColumn p s = (Inl EndBeforeLimit, s')"
  then show "unmapLoop C m p insp compositeFieldsAreSet previousComponents v s
            = Some (if compositeFieldsAreSet then None else Some Done, v, s')"
    by (subst unmapLoop.simps) simp
next
  assume "NextColumn p s = (Inl EndAtLimit, s')"
  then show "unmapLoop C m p insp compositeFieldsAreSet previousComponents v s
            = Some (Some Done, v, s')"
    by (subst unmapLoop.simps) simp
next
  assume a: "startUnmap C m destination p s = (Inr (v, insp), s0)
        \<and> consumeColumns C m p insp n (False, [], v, s0) = Some (flag, prev, v', s1)
        \<and> NextColumn p s1 = (Inl e, s2) \<and> e \<in> {Done, EndBeforeLimit, EndAtLimit}"
  then have run: "unmapLoop C m p insp False [] v s0 = unmapLoop C m p insp flag prev v' s1"
    and flag: "flag \<longleftrightarrow> 0 < n"
    using unmapLoop_consumeColumns [of C m p insp n False "[]" v s0 flag prev v' s1] by simp_all
  from a have "unmapLoop C m p insp flag prev v' s1
                 = Some (if e = EndBeforeLimit \<and> flag then None else Some Done, v', s2)"
    by (subst unmapLoop.simps) auto
  with a run flag
  show "sparseMapping_Unmap C m destination p s
            = Some (if e = EndBeforeLimit \<and> 0 < n then None else Some Done,
                    StructPtr insp v', s2)"
    by (simp add: sparseMapping_Unmap_def)
qed

theorem C5_exhaustion_signals_witness:
  "sparseMapping_Unmap demoCodec userMapping (StructPtr (userType userTags) freshUser) listProvider
        \<lparr> curKey = utf8 ''u1'',
          curColumns = [mkColumn (pack [utf8 ''profile'', utf8 ''Name'']) (utf8 ''Alice''),
                        mkColumn (pack [utf8 ''profile'', utf8 ''Age'']) [0, 0, 0, 0, 0, 0, 0, 30]],
          curPos = 0, curEnd = EndBeforeLimit \<rparr>
     = Some (None,
         StructPtr (userType userTags)
           (freshUser(''Id'' := VString ''u1'', ''Kind'' := VString ''profile'',
                      ''Name'' := VString ''Alice'', ''Age'' := VLong 30)),
         \<lparr> curKey = utf8 ''u1'',
           curColumns = [mkColumn (pack [utf8 ''profile'', utf8 ''Name'']) (utf8 ''Alice''),
                         mkColumn (pack [utf8 ''profile'', utf8 ''Age'']) [0, 0, 0, 0, 0, 0, 0, 30]],
           curPos = 2, curEnd = EndBeforeLimit \<rparr>)
   \<and> map_option fst
       (sparseMapping_Unmap demoCodec userMapping (StructPtr (userType userTags) freshUser) listProvider
          \<lparr> curKey = utf8 ''u1'',
            curColumns = [mkColumn (pack [utf8 ''profile'', utf8 ''Name'']) (utf8 ''Alice''),
                          mkColumn (pack [utf8 ''profile'', utf8 ''Age'']) [0, 0, 0, 0, 0, 0, 0, 30]],
            curPos = 0, curEnd = EndAtLimit \<rparr>)
     = Some (Some Done)"
proof -
  let ?T = "userType userTags"
  let ?cs = "[mkColumn (pack [utf8 ''profile'', utf8 ''Name'']) (utf8 ''Alice''),
              mkColumn (pack [utf8 ''profile'', utf8 ''Age'']) [0, 0, 0, 0, 0, 0, 0, 30]]"
  let ?v = "freshUser(''Id'' := VString ''u1'')"
  let ?v3 = "freshUser(''Id'' := VString ''u1'', ''Kind'' := VString ''profile'',
                      ''Name'' := VString ''Alice'', ''Age'' := VLong 30)"
  let ?s = "\<lambda>i e. \<lparr> curKey = utf8 ''u1'', curColumns = ?cs, curPos = i, curEnd = e \<rparr>"
  have two: "consumeColumns demoCodec userMapping listProvider ?T (Suc (Suc 0))
               (False, [], ?v, ?s 0 e)
             = Some (True, [utf8 ''profile'', utf8 ''Age''], ?v3, ?s 2 e)" for e
    by (simp add: NextColumn_listProvider unmapTurn_user_first unmapTurn_user_second)
  have run: "sparseMapping_Unmap demoCodec userMapping (StructPtr ?T freshUser) listProvider (?s 0 e)
               = Some (if e = EndBeforeLimit then None else Some Done, StructPtr ?T ?v3, ?s 2 e)"
    if "e \<in> {Done, EndBeforeLimit, EndAtLimit}" for e
    using C5_exhaustion_signals
         [where C = demoCodec and m = userMapping and destination = "StructPtr ?T freshUser"
            and p = listProvider and s = "?s 0 e" and ?s0.0 = "?s 0 e" and ?s1.0 = "?s 2 e"
            and ?s2.0 = "?s 2 e" and v = ?v and insp = ?T and n = "Suc (Suc 0)"
            and flag = True and prev = "[utf8 ''profile'', utf8 ''Age'']" and v' = ?v3 and e = e,
          THEN conjunct2, THEN conjunct2, THEN conjunct2]
       two [of e] startUnmap_user [of ?cs e] that
    by (simp add: NextColumn_listProvider)
  from run [of EndBeforeLimit] run [of EndAtLimit] show ?thesis by simp
qed

end
